theory Spec2Isabelle
  imports Complex_Main "HOL-Library.Word"
begin

unbundle bit_operations_syntax

section \<open>The DHT11 driver (src/Dht11.cpp)\<close>

text \<open>
  The driver talks to three things outside itself: the millisecond clock \<open>millis()\<close>,
  the single data pin (\<open>pinMode\<close>, \<open>digitalWrite\<close>, \<open>digitalRead\<close>) and the delay
  routines. They are modelled by a \<open>world\<close>: the values the successive \<open>millis()\<close> calls
  return, the levels the successive \<open>digitalRead(PIN)\<close> calls return, how many of each
  have been made, and the list of the pin writes, mode changes, delays and interrupt-lock
  scopes the driver has issued, oldest first. Nothing is assumed about how the two
  sequences depend on each other or on the delays.
\<close>

subsection \<open>Data\<close>

type_synonym uint8 = "8 word"
type_synonym uint32 = "32 word"

datatype pin_mode = INPUT_PULLUP | OUTPUT

text \<open>\<open>HIGH\<close> is \<open>True\<close>, \<open>LOW\<close> is \<open>False\<close>: \<open>expectPulse\<close> takes the level as a \<open>bool\<close>.\<close>

abbreviation HIGH :: bool where "HIGH \<equiv> True"
abbreviation LOW :: bool where "LOW \<equiv> False"

text \<open>
  Modelled from the spec: the class \<open>InterruptLock\<close> of the header \<open>interrupts.h\<close>,
  which is not part of the sources. The spec describes it as a scoped disable and enable of
  interrupts that is released on every exit path; its construction and its destruction are
  the last two events below. The other events are the calls into the Arduino core.
\<close>

datatype hw_event =
    PinMode pin_mode
  | DigitalWrite bool
  | Delay nat
  | DelayMicroseconds nat
  | InterruptLockAcquire
  | InterruptLockRelease

record world =
  millis_seq :: "nat \<Rightarrow> uint32"
  millis_calls :: nat
  pin_seq :: "nat \<Rightarrow> bool"
  pin_reads :: nat
  events :: "hw_event list"

text \<open>
  Modelled from the spec: the member declarations of the header \<open>Dht11.h\<close>, which is not
  part of the sources. The spec's data model gives the raw frame as exactly five bytes and
  the read state as a timestamp, a success flag and the frame. The widths are those the
  code uses the members at: \<open>data\<close> is shifted and or-ed one bit at a time and compared
  after \<open>& 0xFF\<close>, \<open>_lastreadtime\<close> is subtracted from the \<open>uint32_t\<close> clock with
  wrap-around (the comment in \<open>begin\<close> says so), \<open>_maxcycles\<close> is compared with the
  \<open>uint32_t\<close> loop counter of \<open>expectPulse\<close>.
\<close>

record dht =
  data :: "uint8 list"
  lastreadtime :: uint32
  lastresult :: bool
  maxcycles :: uint32

text \<open>
  Modelled from the spec: the enumeration \<open>DeviceErrorCode\<close> of a missing header, with the
  two values \<open>read\<close> and \<open>readAll\<close> return (success, and the spec's exhausted retries).
\<close>

datatype DeviceErrorCode = DEVICE_OK | ERROR_READ

text \<open>
  Modelled from the spec: the macro \<open>MIN_INTERVAL\<close> of the missing header. The spec
  gives the fixed minimum interval as 2000 ms, the literal \<open>_read\<close> compares with.
\<close>

definition MIN_INTERVAL :: uint32 where
  "MIN_INTERVAL = 2000"

subsection \<open>The hardware primitives\<close>

definition millis :: "world \<Rightarrow> uint32 \<times> world" where
  "millis w = (millis_seq w (millis_calls w), w\<lparr>millis_calls := millis_calls w + 1\<rparr>)"

definition digitalRead :: "world \<Rightarrow> bool \<times> world" where
  "digitalRead w = (pin_seq w (pin_reads w), w\<lparr>pin_reads := pin_reads w + 1\<rparr>)"

definition emit :: "hw_event \<Rightarrow> world \<Rightarrow> world" where
  "emit e w = w\<lparr>events := events w @ [e]\<rparr>"

definition pinMode :: "pin_mode \<Rightarrow> world \<Rightarrow> world" where
  "pinMode m = emit (PinMode m)"

definition digitalWrite :: "bool \<Rightarrow> world \<Rightarrow> world" where
  "digitalWrite v = emit (DigitalWrite v)"

definition delay :: "nat \<Rightarrow> world \<Rightarrow> world" where
  "delay ms = emit (Delay ms)"

definition delayMicroseconds :: "nat \<Rightarrow> world \<Rightarrow> world" where
  "delayMicroseconds us = emit (DelayMicroseconds us)"

subsection \<open>expectPulse\<close>

text \<open>
  \<^verbatim>\<open>uint32_t count = 0;
  while (digitalRead(PIN) == level) { if (count++ >= _maxcycles) return 0; }
  return count;\<close>
  The comparison is made with the value of \<open>count\<close> before the increment. While the
  loop goes on \<open>count < _maxcycles\<close>, so the increment never wraps.
\<close>

function expectPulse_loop :: "uint32 \<Rightarrow> bool \<Rightarrow> uint32 \<Rightarrow> world \<Rightarrow> uint32 \<times> world" where
  "expectPulse_loop mc level count w =
     (case digitalRead w of (v, w') \<Rightarrow>
        if v = level then
          (if count \<ge> mc then (0, w')
           else expectPulse_loop mc level (count + 1) w')
        else (count, w'))"
  by pat_completeness auto
termination
proof (relation "measure (\<lambda>(mc, level, count, w). unat mc - unat count)")
  show "wf (measure (\<lambda>(mc, level, count, w). unat mc - unat count))"
    by simp
next
  fix mc :: uint32 and level :: bool and count :: uint32 and w x :: "world" and v :: bool
  assume "\<not> mc \<le> count"
  then have lt: "count < mc" by simp
  then have "unat count < unat mc" by (simp add: word_less_nat_alt)
  moreover have "unat mc < 2 ^ 32"
    using unsigned_less [of mc] by simp
  moreover have "unat (count + 1) = (unat count + 1) mod 2 ^ 32"
    by (simp add: unat_word_ariths)
  ultimately show "((mc, level, count + 1, x), (mc, level, count, w))
      \<in> measure (\<lambda>(mc, level, count, w). unat mc - unat count)"
    by simp
qed

declare expectPulse_loop.simps [simp del]

definition expectPulse :: "dht \<Rightarrow> bool \<Rightarrow> world \<Rightarrow> uint32 \<times> world" where
  "expectPulse s level w = expectPulse_loop (maxcycles s) level 0 w"

subsection \<open>Construction and \<open>begin\<close>\<close>

text \<open>
  \<open>Dht11::begin\<close> (\<open>begin\<close> is a keyword here, hence the name \<open>Dht11_begin\<close>) sets the
  pin mode and \<open>_lastreadtime = -MIN_INTERVAL\<close>, which wraps around in 32 bits. It
  assigns no other field. The constructor sets \<open>_maxcycles\<close> to
  \<open>microsecondsToClockCycles(1000)\<close>, a macro of the Arduino core that is not part of the
  sources: its value is the parameter \<open>cycles_per_ms\<close>. The fields the constructor
  leaves uninitialised (\<open>data\<close>, \<open>_lastresult\<close>) keep whatever the given record holds.
\<close>

definition Dht11_begin :: "dht \<Rightarrow> world \<Rightarrow> dht \<times> world" where
  "Dht11_begin s w = (s\<lparr>lastreadtime := - MIN_INTERVAL\<rparr>, pinMode INPUT_PULLUP w)"

definition Dht11 :: "uint32 \<Rightarrow> dht \<Rightarrow> world \<Rightarrow> dht \<times> world" where
  "Dht11 cycles_per_ms s w = Dht11_begin (s\<lparr>maxcycles := cycles_per_ms\<rparr>) w"

subsection \<open>The sampling operation \<open>_read\<close>\<close>

text \<open>The guard of the cached path: \<open>(currenttime - _lastreadtime) < 2000\<close> on \<open>uint32_t\<close>.\<close>

definition rate_limited :: "dht \<Rightarrow> uint32 \<Rightarrow> bool" where
  "rate_limited s currenttime \<longleftrightarrow> currenttime - lastreadtime s < 2000"

text \<open>
  The start signal (lines 139 to 159): release the line for 250 ms, pull it low for
  20 ms, then, with the interrupt lock held, high for 40 us and back to input.
\<close>

definition start_signal :: "world \<Rightarrow> world" where
  "start_signal w =
     (delayMicroseconds 10 (pinMode INPUT_PULLUP (delayMicroseconds 40 (digitalWrite HIGH
        (emit InterruptLockAcquire
          (delay 20 (digitalWrite LOW (pinMode OUTPUT
            (delay 250 (digitalWrite HIGH w))))))))))"

text \<open>
  The capture loop (lines 185 to 189) fills the local array \<open>cycles[80]\<close> two entries
  at a time. The array is uninitialised in the source; every entry is written before it
  is read, and the model starts from zeros.
\<close>

function capture_loop :: "dht \<Rightarrow> nat \<Rightarrow> uint32 list \<Rightarrow> world \<Rightarrow> uint32 list \<times> world" where
  "capture_loop s i cycles w =
     (if i < 80 then
        (case expectPulse s LOW w of (lo, w1) \<Rightarrow>
         case expectPulse s HIGH w1 of (hi, w2) \<Rightarrow>
           capture_loop s (i + 2) (cycles[i := lo, i + 1 := hi]) w2)
      else (cycles, w))"
  by pat_completeness auto
termination
  by (relation "measure (\<lambda>(s, i, cycles, w). 80 - i)") auto

declare capture_loop.simps [simp del]

definition capture :: "dht \<Rightarrow> world \<Rightarrow> uint32 list \<times> world" where
  "capture s w = capture_loop s 0 (replicate 80 0) w"

text \<open>
  The decode loop (lines 194 to 214). A zero sample ends the attempt at once, with the
  bits shifted in so far left in \<open>data\<close>. \<open>data[i / 8] <<= 1\<close> is a shift within the byte.
\<close>

definition decode_bit :: "uint32 \<Rightarrow> uint32 \<Rightarrow> bool" where
  "decode_bit lowCycles highCycles \<longleftrightarrow> highCycles > lowCycles"

function decode_loop :: "nat \<Rightarrow> uint32 list \<Rightarrow> uint8 list \<Rightarrow> bool \<times> uint8 list" where
  "decode_loop i cycles d =
     (if i < 40 then
        (let lowCycles = cycles ! (2 * i); highCycles = cycles ! (2 * i + 1) in
         if lowCycles = 0 \<or> highCycles = 0 then (False, d)
         else
           (let d1 = d[i div 8 := push_bit 1 (d ! (i div 8))];
                d2 = (if decode_bit lowCycles highCycles
                      then d1[i div 8 := (d1 ! (i div 8)) OR 1] else d1)
            in decode_loop (i + 1) cycles d2))
      else (True, d))"
  by pat_completeness auto
termination
  by (relation "measure (\<lambda>(i, cycles, d). 40 - i)") auto

declare decode_loop.simps [simp del]

text \<open>
  The checksum test (line 225): the four bytes are promoted to \<open>int\<close> before they are
  added, so the sum does not wrap; it is masked with \<open>0xFF\<close> and compared with \<open>data[4]\<close>.
\<close>

definition checksum_ok :: "uint8 list \<Rightarrow> bool" where
  "checksum_ok d \<longleftrightarrow>
     uint (d ! 4) = (uint (d ! 0) + uint (d ! 1) + uint (d ! 2) + uint (d ! 3)) AND 255"

text \<open>Lines 192 to 235: decode the captured samples into \<open>data\<close> and set \<open>_lastresult\<close>.\<close>

definition decode_and_check :: "uint32 list \<Rightarrow> dht \<Rightarrow> bool \<times> dht" where
  "decode_and_check cycles s =
     (case decode_loop 0 cycles (data s) of (ok, d) \<Rightarrow>
        if \<not> ok then (False, s\<lparr>data := d, lastresult := False\<rparr>)
        else if checksum_ok d then (True, s\<lparr>data := d, lastresult := True\<rparr>)
        else (False, s\<lparr>data := d, lastresult := False\<rparr>))"

text \<open>
  \<open>Dht11::_read\<close> (a name cannot start with an underscore here, hence \<open>priv_read\<close>). The
  result is the returned \<open>bool\<close>, the object and the world after the call.

  The interrupt lock is a scoped object: its release is recorded on the two early returns
  inside its block as well as at the block's end.

  The \<open>DEBUG_PRINT\<close> macros write to a diagnostic channel only and are left out.
\<close>

definition priv_read :: "dht \<Rightarrow> world \<Rightarrow> bool \<times> dht \<times> world" where
  "priv_read s w =
     (case millis w of (currenttime, w0) \<Rightarrow>
      if rate_limited s currenttime then (lastresult s, s, w0)
      else
        (let s1 = s\<lparr>lastreadtime := currenttime\<rparr>;
             s2 = s1\<lparr>data := [0, 0, 0, 0, 0]\<rparr>;
             w1 = start_signal w0
         in case expectPulse s2 LOW w1 of (p, w2) \<Rightarrow>
            if p = 0 then (False, s2\<lparr>lastresult := False\<rparr>, emit InterruptLockRelease w2)
            else
              (case expectPulse s2 HIGH w2 of (q, w3) \<Rightarrow>
               if q = 0 then (False, s2\<lparr>lastresult := False\<rparr>, emit InterruptLockRelease w3)
               else
                 (case capture s2 w3 of (cycles, w4) \<Rightarrow>
                  case decode_and_check cycles s2 of (ok, s3) \<Rightarrow>
                    (ok, s3, emit InterruptLockRelease w4)))))"

subsection \<open>Floating point\<close>

text \<open>
  The conversions compute in \<open>double\<close> and return \<open>float\<close>. A \<open>float\<close> or \<open>double\<close> value is
  modelled by the real number it denotes, and every operation rounds its exact result:
  \<open>dbl\<close> rounds to \<open>double\<close> (the arithmetic operations, \<open>pow\<close>, \<open>sqrt\<close> and the decimal
  literals), \<open>flt\<close> rounds to \<open>float\<close> (assignments to and returns of a \<open>float\<close>). The two
  rounding functions are parameters, so that a statement holds for every arithmetic that
  meets the bound it assumes. Conversions of a byte or of an integer literal to floating
  point are exact. Not-a-number and infinities are outside the model.
\<close>

record fpu =
  dbl :: "real \<Rightarrow> real"
  flt :: "real \<Rightarrow> real"

text \<open>The operations of the expressions below, each rounding its exact result.\<close>

definition lit :: "fpu \<Rightarrow> real \<Rightarrow> real" where
  "lit fp x = dbl fp x"

definition fadd :: "fpu \<Rightarrow> real \<Rightarrow> real \<Rightarrow> real" where
  "fadd fp a b = dbl fp (a + b)"

definition fsub :: "fpu \<Rightarrow> real \<Rightarrow> real \<Rightarrow> real" where
  "fsub fp a b = dbl fp (a - b)"

definition fmul :: "fpu \<Rightarrow> real \<Rightarrow> real \<Rightarrow> real" where
  "fmul fp a b = dbl fp (a * b)"

definition fpow2 :: "fpu \<Rightarrow> real \<Rightarrow> real" where
  "fpow2 fp a = dbl fp (a ^ 2)"

definition fsqrt :: "fpu \<Rightarrow> real \<Rightarrow> real" where
  "fsqrt fp a = dbl fp (sqrt a)"

text \<open>
  \<open>c * 1.8 + 32\<close>: the product and the sum are computed in \<open>double\<close>, the integer
  literal \<open>32\<close> converts exactly, and the result is returned as a \<open>float\<close>.
\<close>

definition convertCtoF :: "fpu \<Rightarrow> real \<Rightarrow> real" where
  "convertCtoF fp c = flt fp (fadd fp (fmul fp c (lit fp 1.8)) 32)"

text \<open>
  \<open>(f - 32) * 0.55555\<close>: the difference of a \<open>float\<close> and an \<open>int\<close> is a \<open>float\<close>, the
  product with the \<open>double\<close> literal is a \<open>double\<close>.
\<close>

definition convertFtoC :: "fpu \<Rightarrow> real \<Rightarrow> real" where
  "convertFtoC fp f = flt fp (fmul fp (flt fp (f - 32)) (lit fp 0.55555))"

subsection \<open>computeHeatIndex\<close>

text \<open>
  Line 92, the first estimate:
  \<open>0.5 * (temperature + 61.0 + ((temperature - 68.0) * 1.2) + (percentHumidity * 0.094))\<close>,
  stored in the \<open>float\<close> variable \<open>heatIndex\<close>.
\<close>

definition simple_average :: "fpu \<Rightarrow> real \<Rightarrow> real \<Rightarrow> real" where
  "simple_average fp temperature percentHumidity =
     flt fp (fmul fp (lit fp 0.5)
       (fadd fp
          (fadd fp (fadd fp temperature (lit fp 61.0))
                   (fmul fp (fsub fp temperature (lit fp 68.0)) (lit fp 1.2)))
          (fmul fp percentHumidity (lit fp 0.094))))"

text \<open>Lines 96 to 104, the regression: a sum of nine terms, added from the left.\<close>

definition regression :: "fpu \<Rightarrow> real \<Rightarrow> real \<Rightarrow> real" where
  "regression fp temperature percentHumidity =
     flt fp
      (fadd fp (fadd fp (fadd fp (fadd fp (fadd fp (fadd fp (fadd fp (fadd fp
         (- lit fp 42.379)
         (fmul fp (lit fp 2.04901523) temperature))
         (fmul fp (lit fp 10.14333127) percentHumidity))
         (fmul fp (fmul fp (- lit fp 0.22475541) temperature) percentHumidity))
         (fmul fp (- lit fp 0.00683783) (fpow2 fp temperature)))
         (fmul fp (- lit fp 0.05481717) (fpow2 fp percentHumidity)))
         (fmul fp (fmul fp (lit fp 0.00122874) (fpow2 fp temperature)) percentHumidity))
         (fmul fp (fmul fp (lit fp 0.00085282) temperature) (fpow2 fp percentHumidity)))
         (fmul fp (fmul fp (- lit fp 0.00000199) (fpow2 fp temperature))
                  (fpow2 fp percentHumidity)))"

text \<open>Line 108: \<open>heatIndex -= ((13.0 - h) * 0.25) * sqrt((17.0 - abs(t - 95.0)) * 0.05882)\<close>.\<close>

definition low_humidity_correction :: "fpu \<Rightarrow> real \<Rightarrow> real \<Rightarrow> real \<Rightarrow> real" where
  "low_humidity_correction fp temperature percentHumidity heatIndex =
     flt fp (fsub fp heatIndex
       (fmul fp (fmul fp (fsub fp (lit fp 13.0) percentHumidity) (lit fp 0.25))
          (fsqrt fp (fmul fp (fsub fp (lit fp 17.0) \<bar>fsub fp temperature (lit fp 95.0)\<bar>)
                             (lit fp 0.05882)))))"

text \<open>Line 113: \<open>heatIndex += ((h - 85.0) * 0.1) * ((87.0 - t) * 0.2)\<close>.\<close>

definition high_humidity_correction :: "fpu \<Rightarrow> real \<Rightarrow> real \<Rightarrow> real \<Rightarrow> real" where
  "high_humidity_correction fp temperature percentHumidity heatIndex =
     flt fp (fadd fp heatIndex
       (fmul fp (fmul fp (fsub fp percentHumidity (lit fp 85.0)) (lit fp 0.1))
                (fmul fp (fsub fp (lit fp 87.0) temperature) (lit fp 0.2))))"

text \<open>
  The branches of the function, in the order of its tests: the first estimate is kept
  unless it exceeds 79 (line 94); then the regression replaces it, corrected on line 106
  or else on line 111. The integer literals \<open>79\<close> and \<open>13\<close> convert exactly.
\<close>

datatype heat_index_branch = SimpleAverage | Regression | LowHumidity | HighHumidity

definition heat_index_branch :: "fpu \<Rightarrow> real \<Rightarrow> real \<Rightarrow> heat_index_branch" where
  "heat_index_branch fp temperature percentHumidity =
     (if simple_average fp temperature percentHumidity > 79 then
        (if percentHumidity < 13 \<and> temperature \<ge> lit fp 80.0 \<and> temperature \<le> lit fp 112.0
         then LowHumidity
         else if percentHumidity > lit fp 85.0 \<and> temperature \<ge> lit fp 80.0
                 \<and> temperature \<le> lit fp 87.0
         then HighHumidity
         else Regression)
      else SimpleAverage)"

definition computeHeatIndex :: "fpu \<Rightarrow> real \<Rightarrow> real \<Rightarrow> real" where
  "computeHeatIndex fp temperature percentHumidity =
     (case heat_index_branch fp temperature percentHumidity of
        SimpleAverage \<Rightarrow> simple_average fp temperature percentHumidity
      | Regression \<Rightarrow> regression fp temperature percentHumidity
      | LowHumidity \<Rightarrow>
          low_humidity_correction fp temperature percentHumidity
            (regression fp temperature percentHumidity)
      | HighHumidity \<Rightarrow>
          high_humidity_correction fp temperature percentHumidity
            (regression fp temperature percentHumidity))"

subsection \<open>The accessors\<close>

text \<open>
  \<open>readTemperature\<close> and \<open>readHumidity\<close> are member functions that are not declared
  \<open>const\<close>: the model returns the object beside the value.
\<close>

definition readTemperature :: "fpu \<Rightarrow> dht \<Rightarrow> real \<times> dht" where
  "readTemperature fp s = (convertCtoF fp (real (unat (data s ! 2))), s)"

definition readHumidity :: "dht \<Rightarrow> real \<times> dht" where
  "readHumidity s = (real (unat (data s ! 0)), s)"

subsection \<open>\<open>read\<close> and \<open>readAll\<close>\<close>

text \<open>
  Both start with the same loop:
  \<^verbatim>\<open>int count = 0;
  while (!_read()) { count++; delay(100); if (count > 10) return ERROR_READ; }\<close>
  The loop's result is whether it was left because \<open>_read\<close> returned true.
\<close>

function retry_loop :: "int \<Rightarrow> dht \<Rightarrow> world \<Rightarrow> bool \<times> dht \<times> world" where
  "retry_loop count s w =
     (case priv_read s w of (ok, s', w') \<Rightarrow>
        if \<not> ok then
          (let count' = count + 1; w'' = delay 100 w' in
           if count' > 10 then (False, s', w'') else retry_loop count' s' w'')
        else (True, s', w'))"
  by pat_completeness auto
termination
  by (relation "measure (\<lambda>(count, s, w). nat (11 - count))") auto

declare retry_loop.simps [simp del]

text \<open>
  The text handed back in \<open>data\<close>. How the Arduino \<open>String\<close> class prints a \<open>float\<close> is
  not part of the sources; the text is kept as the expression that builds it.
\<close>

datatype arduino_string =
    StringLit string
  | StringOfFloat real
  | StringCat arduino_string arduino_string

definition read :: "fpu \<Rightarrow> dht \<Rightarrow> world \<Rightarrow> DeviceErrorCode \<times> arduino_string \<times> dht \<times> world" where
  "read fp s w =
     (case retry_loop 0 s w of (ok, s1, w1) \<Rightarrow>
        if \<not> ok then (ERROR_READ, StringLit ''Error reading'', s1, w1)
        else
          (case readTemperature fp s1 of (temp, s2) \<Rightarrow>
           case readHumidity s2 of (humidity, s3) \<Rightarrow>
             (DEVICE_OK, StringOfFloat temp, s3, w1)))"

definition readAll :: "fpu \<Rightarrow> dht \<Rightarrow> world \<Rightarrow> DeviceErrorCode \<times> arduino_string \<times> dht \<times> world" where
  "readAll fp s w =
     (case retry_loop 0 s w of (ok, s1, w1) \<Rightarrow>
        if \<not> ok then (ERROR_READ, StringLit ''Error reading'', s1, w1)
        else
          (case readTemperature fp s1 of (temp, s2) \<Rightarrow>
           case readHumidity s2 of (humidity, s3) \<Rightarrow>
             (DEVICE_OK,
              StringCat (StringCat (StringCat (StringLit ''Temp: '') (StringOfFloat temp))
                                   (StringLit ''  Humidity: ''))
                        (StringOfFloat humidity),
              s3, w1)))"

section \<open>Notions used in the statements\<close>

text \<open>The pin writes, mode changes and delays of the start signal, in the order they are issued.\<close>

definition start_events :: "hw_event list" where
  "start_events = [DigitalWrite HIGH, Delay 250, PinMode OUTPUT, DigitalWrite LOW, Delay 20,
     InterruptLockAcquire, DigitalWrite HIGH, DelayMicroseconds 40, PinMode INPUT_PULLUP,
     DelayMicroseconds 10]"

text \<open>
  The bit that the pulse pair \<open>i\<close> of a sample array encodes: \<open>cycles[2 * i]\<close> is the low
  pulse, \<open>cycles[2 * i + 1]\<close> the high pulse.
\<close>

definition pulse_bit :: "uint32 list \<Rightarrow> nat \<Rightarrow> bool" where
  "pulse_bit cycles i = decode_bit (cycles ! (2 * i)) (cycles ! (2 * i + 1))"

text \<open>
  The number of shifts byte \<open>b\<close> still receives when the decode loop stands before
  iteration \<open>i\<close>: eight before the byte's first bit, none after its last.
\<close>

definition shifts_left :: "nat \<Rightarrow> nat \<Rightarrow> nat" where
  "shifts_left b i = min 8 (8 * b + 8 - i)"

text \<open>
  The number of shifts byte \<open>b\<close> receives in the iterations \<open>i\<close> to \<open>j - 1\<close> of the decode
  loop: those of them that lie in \<open>8 * b\<close> to \<open>8 * b + 7\<close>.
\<close>

definition shifts_done :: "nat \<Rightarrow> nat \<Rightarrow> nat \<Rightarrow> nat" where
  "shifts_done b i j = min (8 * b + 8) j - max (8 * b) i"

text \<open>
  The checksum invariant in the words of the specification: byte 4 equals the sum of
  bytes 0 to 3 modulo 256.
\<close>

definition frame_valid :: "uint8 list \<Rightarrow> bool" where
  "frame_valid f \<longleftrightarrow>
     unat (f ! 4) = (unat (f ! 0) + unat (f ! 1) + unat (f ! 2) + unat (f ! 3)) mod 256"

text \<open>
  Eighty samples that carry a given frame, most significant bit of each byte first:
  every low pulse counts 50, a high pulse counts 70 for a one and 30 for a zero.
\<close>

definition pulses_of_frame :: "uint8 list \<Rightarrow> uint32 list" where
  "pulses_of_frame f =
     map (\<lambda>k. if even k then 50
               else if bit (f ! (k div 16)) (7 - (k div 2) mod 8) then 70 else 30)
         [0..<80]"

text \<open>
  The first \<open>n\<close> invocations of \<open>_read\<close> that the retry loop makes from a state and a
  world all return false; \<open>delay(100)\<close> follows each of them.
\<close>

fun failed_attempts :: "nat \<Rightarrow> dht \<Rightarrow> world \<Rightarrow> bool" where
  "failed_attempts 0 s w = True"
| "failed_attempts (Suc n) s w =
     (case priv_read s w of (ok, s', w') \<Rightarrow> \<not> ok \<and> failed_attempts n s' (delay 100 w'))"

text \<open>The number of \<open>delay(100)\<close> calls recorded in a world.\<close>

definition pauses :: "world \<Rightarrow> nat" where
  "pauses w = length (filter (\<lambda>e. e = Delay 100) (events w))"

text \<open>
  The bound on rounding that the statements about floating point assume: on arguments of
  magnitude up to 1000 each rounding moves its argument by at most \<open>1/10000\<close>. IEEE
  single and double precision meet it (half a unit in the last place of a \<open>float\<close> below
  1024 is \<open>2\<^sup>-\<^sup>1\<^sup>5\<close>), and so does arithmetic that does not round at all.
\<close>

definition rounds_within :: "fpu \<Rightarrow> bool" where
  "rounds_within fp \<longleftrightarrow>
     (\<forall>x. \<bar>x\<bar> \<le> 1000 \<longrightarrow> \<bar>dbl fp x - x\<bar> \<le> 1 / 10000) \<and>
     (\<forall>x. \<bar>x\<bar> \<le> 1000 \<longrightarrow> \<bar>flt fp x - x\<bar> \<le> 1 / 10000)"

definition exact_fpu :: fpu where
  "exact_fpu = \<lparr>dbl = (\<lambda>x. x), flt = (\<lambda>x. x)\<rparr>"

section \<open>Concrete inputs\<close>

text \<open>
  A line nobody drives: the pull-up keeps it high at every poll. The clock returns
  0, 370, 740, ... to the successive \<open>millis()\<close> calls.
\<close>

definition idle_world :: world where
  "idle_world = \<lparr>millis_seq = (\<lambda>n. of_nat (370 * n)), millis_calls = 0,
     pin_seq = (\<lambda>n. HIGH), pin_reads = 0, events = []\<rparr>"

text \<open>A line that is low for the first three polls and high from then on.\<close>

definition pulse_world :: world where
  "pulse_world = \<lparr>millis_seq = (\<lambda>n. of_nat (370 * n)), millis_calls = 0,
     pin_seq = (\<lambda>n. 3 \<le> n), pin_reads = 0, events = []\<rparr>"

text \<open>An object that holds a valid frame (40 % humidity, 25 degrees) read at time 0.\<close>

definition fresh_dht :: dht where
  "fresh_dht = \<lparr>data = [40, 0, 25, 0, 65], lastreadtime = 0, lastresult = True,
     maxcycles = 1000\<rparr>"

text \<open>The idle line again, with a clock that returns 1500, 2500, 3500, ...\<close>

definition recheck_world :: world where
  "recheck_world = \<lparr>millis_seq = (\<lambda>n. of_nat (1500 + 1000 * n)), millis_calls = 0,
     pin_seq = (\<lambda>n. HIGH), pin_reads = 0, events = []\<rparr>"

text \<open>The idle line with a clock that returns 5000, 5370, 5740, ...\<close>

definition unplugged_world :: world where
  "unplugged_world = \<lparr>millis_seq = (\<lambda>n. of_nat (5000 + 370 * n)), millis_calls = 0,
     pin_seq = (\<lambda>n. HIGH), pin_reads = 0, events = []\<rparr>"

text \<open>The idle line with a clock that stands one millisecond before its 32-bit wrap.\<close>

definition wrap_world :: world where
  "wrap_world = \<lparr>millis_seq = (\<lambda>n. 4294967295 + of_nat (370 * n)), millis_calls = 0,
     pin_seq = (\<lambda>n. HIGH), pin_reads = 0, events = []\<rparr>"

text \<open>
  A sensor that answers: the line alternates, low at polls 0, 3, 4, 7, 8, ... and high
  at polls 1, 2, 5, 6, ..., so that every pulse is seen for exactly one poll.
\<close>

definition square_wave :: "nat \<Rightarrow> bool" where
  "square_wave n \<longleftrightarrow> n mod 4 = 1 \<or> n mod 4 = 2"

definition sensor_world :: world where
  "sensor_world = \<lparr>millis_seq = (\<lambda>n. of_nat (5000 + 370 * n)), millis_calls = 0,
     pin_seq = square_wave, pin_reads = 0, events = []\<rparr>"

text \<open>
  A sensor that answers with a frame of ones: the line is low at polls 0, 4, 5, 9, 10, ...
  and high at polls 1, 2, 3, 6, 7, 8, ..., so that every low pulse is seen for one poll
  and every high pulse for two.
\<close>

definition long_high_wave :: "nat \<Rightarrow> bool" where
  "long_high_wave n \<longleftrightarrow> n mod 5 = 1 \<or> n mod 5 = 2 \<or> n mod 5 = 3"

definition noisy_world :: world where
  "noisy_world = \<lparr>millis_seq = (\<lambda>n. of_nat (5000 + 370 * n)), millis_calls = 0,
     pin_seq = long_high_wave, pin_reads = 0, events = []\<rparr>"

text \<open>
  The same sensor, falling silent after the response and three bits: from poll 20 on
  the pull-up keeps the line high.
\<close>

definition cut_wave :: "nat \<Rightarrow> bool" where
  "cut_wave n \<longleftrightarrow> 20 \<le> n \<or> long_high_wave n"

definition cut_world :: world where
  "cut_world = \<lparr>millis_seq = (\<lambda>n. of_nat (5000 + 370 * n)), millis_calls = 0,
     pin_seq = cut_wave, pin_reads = 0, events = []\<rparr>"

section \<open>Properties of \<open>expectPulse\<close>\<close>

lemma expectPulse_loop_leave:
  "pin_seq w (pin_reads w) \<noteq> level \<Longrightarrow>
   expectPulse_loop mc level count w = (count, w\<lparr>pin_reads := pin_reads w + 1\<rparr>)"
  by (subst expectPulse_loop.simps) (simp add: digitalRead_def)

lemma unat_succ_below:
  fixes count mc :: uint32
  assumes "count < mc"
  shows "unat (count + 1) = unat count + 1"
proof -
  have "unat count < unat mc" using assms by (simp add: word_less_nat_alt)
  moreover have "unat mc < 2 ^ 32" using unsigned_less [of mc] by simp
  moreover have "unat (count + 1) = (unat count + 1) mod 2 ^ 32"
    by (simp add: unat_word_ariths)
  ultimately show ?thesis by simp
qed

lemma expectPulse_loop_count:
  "(\<forall>j<k. pin_seq w (pin_reads w + j) = level) \<Longrightarrow>
   pin_seq w (pin_reads w + k) \<noteq> level \<Longrightarrow>
   unat count + k \<le> unat mc \<Longrightarrow>
   expectPulse_loop mc level count w =
     (count + of_nat k, w\<lparr>pin_reads := pin_reads w + k + 1\<rparr>)"
proof (induction k arbitrary: count w)
  case 0
  then show ?case using expectPulse_loop_leave [of w level mc count] by simp
next
  case (Suc k)
  let ?w = "w\<lparr>pin_reads := pin_reads w + 1\<rparr>"
  from Suc.prems(1) have here: "pin_seq w (pin_reads w) = level" by force
  from Suc.prems(3) have lt: "count < mc" by (simp add: word_less_nat_alt)
  then have nle: "\<not> mc \<le> count" by simp
  have step: "expectPulse_loop mc level count w = expectPulse_loop mc level (count + 1) ?w"
    using here nle by (subst expectPulse_loop.simps) (simp add: digitalRead_def)
  have a: "\<forall>j<k. pin_seq ?w (pin_reads ?w + j) = level"
    using Suc.prems(1) by (auto dest: spec [of _ "Suc j" for j])
  have b: "pin_seq ?w (pin_reads ?w + k) \<noteq> level"
    using Suc.prems(2) by simp
  have c: "unat (count + 1) + k \<le> unat mc"
    using Suc.prems(3) unat_succ_below [OF lt] by simp
  show ?case
    using Suc.IH [OF a b c] step by simp
qed

lemma expectPulse_loop_timeout:
  "n = unat mc - unat count \<Longrightarrow> count \<le> mc \<Longrightarrow>
   (\<forall>j\<le>n. pin_seq w (pin_reads w + j) = level) \<Longrightarrow>
   expectPulse_loop mc level count w = (0, w\<lparr>pin_reads := pin_reads w + n + 1\<rparr>)"
proof (induction n arbitrary: count w)
  case 0
  then have "mc \<le> count" by (simp add: word_le_nat_alt)
  moreover from 0 have "pin_seq w (pin_reads w) = level" by simp
  ultimately show ?case
    by (subst expectPulse_loop.simps) (simp add: digitalRead_def)
next
  case (Suc n)
  let ?w = "w\<lparr>pin_reads := pin_reads w + 1\<rparr>"
  from Suc.prems(1) have "unat count < unat mc" by simp
  then have lt: "count < mc" by (simp add: word_less_nat_alt)
  then have nle: "\<not> mc \<le> count" by simp
  from Suc.prems(3) have here: "pin_seq w (pin_reads w) = level" by force
  have step: "expectPulse_loop mc level count w = expectPulse_loop mc level (count + 1) ?w"
    using here nle by (subst expectPulse_loop.simps) (simp add: digitalRead_def)
  have a: "n = unat mc - unat (count + 1)"
    using Suc.prems(1) unat_succ_below [OF lt] by simp
  have b: "count + 1 \<le> mc"
    using lt by (simp add: inc_le)
  have c: "\<forall>j\<le>n. pin_seq ?w (pin_reads ?w + j) = level"
    using Suc.prems(3) by (auto dest: spec [of _ "Suc j" for j])
  show ?case
    using Suc.IH [OF a b c] step by simp
qed

lemma expectPulse_count:
  assumes "\<forall>j<k. pin_seq w (pin_reads w + j) = level"
    and "pin_seq w (pin_reads w + k) \<noteq> level"
    and "k \<le> unat (maxcycles s)"
  shows "expectPulse s level w = (of_nat k, w\<lparr>pin_reads := pin_reads w + k + 1\<rparr>)"
  using expectPulse_loop_count [of k w level 0 "maxcycles s"] assms
  by (simp add: expectPulse_def)

lemma expectPulse_timeout:
  assumes "\<forall>j\<le>unat (maxcycles s). pin_seq w (pin_reads w + j) = level"
  shows "expectPulse s level w = (0, w\<lparr>pin_reads := pin_reads w + unat (maxcycles s) + 1\<rparr>)"
  using expectPulse_loop_timeout [of "unat (maxcycles s)" "maxcycles s" 0 w level] assms
  by (simp add: expectPulse_def)

text \<open>
  C3 (as amended). \<open>expectPulse(level)\<close> returns 0 exactly when the pin is already away
  from \<open>level\<close> at the first poll, or stays at \<open>level\<close> for the first \<open>_maxcycles + 1\<close>
  polls. When the pin is at \<open>level\<close> for exactly \<open>k\<close> polls, \<open>k \<le> _maxcycles\<close>, and away
  from it at the next, the call returns \<open>k\<close>, having polled \<open>k + 1\<close> times: a strictly
  positive count in every case but \<open>k = 0\<close>, and a longer pulse gives a larger count.
\<close>

theorem expectPulse_zero_iff:
  "(fst (expectPulse s level w) = 0 \<longleftrightarrow>
      pin_seq w (pin_reads w) \<noteq> level \<or>
      (\<forall>j\<le>unat (maxcycles s). pin_seq w (pin_reads w + j) = level)) \<and>
   (\<forall>k. (\<forall>j<k. pin_seq w (pin_reads w + j) = level) \<and>
        pin_seq w (pin_reads w + k) \<noteq> level \<and> k \<le> unat (maxcycles s) \<longrightarrow>
        unat (fst (expectPulse s level w)) = k \<and>
        snd (expectPulse s level w) = w\<lparr>pin_reads := pin_reads w + k + 1\<rparr>)"
proof (intro conjI allI impI)
  fix k
  assume h: "(\<forall>j<k. pin_seq w (pin_reads w + j) = level) \<and>
        pin_seq w (pin_reads w + k) \<noteq> level \<and> k \<le> unat (maxcycles s)"
  then have res: "expectPulse s level w = (of_nat k, w\<lparr>pin_reads := pin_reads w + k + 1\<rparr>)"
    using expectPulse_count [of k w level s] by blast
  from h have k: "unat (of_nat k :: uint32) = k"
    using le_unat_uoi [of k "maxcycles s"] by blast
  show "unat (fst (expectPulse s level w)) = k"
    unfolding res fst_conv by (rule k)
  show "snd (expectPulse s level w) = w\<lparr>pin_reads := pin_reads w + k + 1\<rparr>"
    unfolding res snd_conv by (rule refl)
next
  let ?P = "\<lambda>j. pin_seq w (pin_reads w + j) \<noteq> level"
  show "fst (expectPulse s level w) = 0 \<longleftrightarrow>
      pin_seq w (pin_reads w) \<noteq> level \<or>
      (\<forall>j\<le>unat (maxcycles s). pin_seq w (pin_reads w + j) = level)"
  proof (cases "\<forall>j\<le>unat (maxcycles s). pin_seq w (pin_reads w + j) = level")
    case True
    then show ?thesis by (simp add: expectPulse_timeout)
  next
    case False
    then obtain j where j: "j \<le> unat (maxcycles s)" "?P j" by blast
    define k where "k = (LEAST j. ?P j)"
    have pk: "?P k" unfolding k_def using j(2) by (rule LeastI)
    have kj: "k \<le> j" unfolding k_def using j(2) by (rule Least_le)
    have below: "\<forall>i<k. pin_seq w (pin_reads w + i) = level"
      unfolding k_def using not_less_Least by blast
    have kmc: "k \<le> unat (maxcycles s)" using kj j(1) by simp
    have res: "expectPulse s level w = (of_nat k, w\<lparr>pin_reads := pin_reads w + k + 1\<rparr>)"
      using below pk kmc by (rule expectPulse_count)
    have uk: "unat (of_nat k :: uint32) = k"
      using kmc by (rule le_unat_uoi)
    have "(of_nat k :: uint32) = 0 \<longleftrightarrow> k = 0"
    proof
      assume "(of_nat k :: uint32) = 0"
      then have "unat (of_nat k :: uint32) = 0" by simp
      with uk show "k = 0" by simp
    qed simp
    moreover have "k = 0 \<longleftrightarrow> pin_seq w (pin_reads w) \<noteq> level"
      using pk below by (cases k) auto
    ultimately have "fst (expectPulse s level w) = 0 \<longleftrightarrow> pin_seq w (pin_reads w) \<noteq> level"
      unfolding res fst_conv by blast
    with False show ?thesis by blast
  qed
qed

theorem expectPulse_zero_iff_witness:
  "unat (fst (expectPulse fresh_dht LOW pulse_world)) = 3 \<and>
   fst (expectPulse fresh_dht LOW idle_world) = 0"
proof -
  have "(\<forall>j<3. pin_seq pulse_world (pin_reads pulse_world + j) = LOW) \<and>
        pin_seq pulse_world (pin_reads pulse_world + 3) \<noteq> LOW \<and>
        3 \<le> unat (maxcycles fresh_dht)"
    by (simp add: pulse_world_def fresh_dht_def)
  with expectPulse_zero_iff [of fresh_dht LOW pulse_world]
  have "unat (fst (expectPulse fresh_dht LOW pulse_world)) = 3" by blast
  moreover have "pin_seq idle_world (pin_reads idle_world) \<noteq> LOW"
    by (simp add: idle_world_def)
  with expectPulse_zero_iff [of fresh_dht LOW idle_world]
  have "fst (expectPulse fresh_dht LOW idle_world) = 0" by blast
  ultimately show ?thesis by simp
qed

text \<open>
  The claim as it was stated fails on the idle line: the pin is away from \<open>LOW\<close> at the
  very first poll, no timeout occurs, and yet the call returns 0.
\<close>

theorem expectPulse_zero_iff_counterexample:
  "\<not> (fst (expectPulse fresh_dht LOW idle_world) = 0 \<longleftrightarrow>
        (\<forall>j\<le>unat (maxcycles fresh_dht). pin_seq idle_world (pin_reads idle_world + j) = LOW))"
proof -
  have "fst (expectPulse fresh_dht LOW idle_world) = 0"
    by (simp add: expectPulse_def expectPulse_loop_leave idle_world_def)
  moreover have "pin_seq idle_world (pin_reads idle_world + 0) \<noteq> LOW"
    by (simp add: idle_world_def)
  ultimately show ?thesis by blast
qed

section \<open>What a call of \<open>_read\<close> does to the object and to the world\<close>

lemma start_signal_events: "start_signal w = w\<lparr>events := events w @ start_events\<rparr>"
  by (simp add: start_signal_def start_events_def delayMicroseconds_def pinMode_def
      digitalWrite_def delay_def emit_def)

lemma expectPulse_loop_world:
  "\<exists>n. snd (expectPulse_loop mc level count w) = w\<lparr>pin_reads := n\<rparr>"
proof (induction mc level count w rule: expectPulse_loop.induct)
  case (1 mc level count w)
  let ?w = "w\<lparr>pin_reads := pin_reads w + 1\<rparr>"
  show ?case
  proof (cases "pin_seq w (pin_reads w) = level \<and> \<not> mc \<le> count")
    case True
    then have "expectPulse_loop mc level count w = expectPulse_loop mc level (count + 1) ?w"
      by (subst expectPulse_loop.simps) (simp add: digitalRead_def)
    moreover from True have "\<exists>n. snd (expectPulse_loop mc level (count + 1) ?w) = ?w\<lparr>pin_reads := n\<rparr>"
      by (intro "1.IH" [of "pin_seq w (pin_reads w)" ?w]) (simp_all add: digitalRead_def)
    ultimately show ?thesis by simp
  next
    case False
    then have "snd (expectPulse_loop mc level count w) = ?w"
      by (subst expectPulse_loop.simps) (auto simp add: digitalRead_def)
    then show ?thesis by blast
  qed
qed

lemma expectPulse_world: "\<exists>n. snd (expectPulse s level w) = w\<lparr>pin_reads := n\<rparr>"
  by (simp add: expectPulse_def expectPulse_loop_world)

lemma expectPulse_cong: "maxcycles s = maxcycles t \<Longrightarrow> expectPulse s = expectPulse t"
  by (intro ext) (simp add: expectPulse_def)

lemma capture_loop_world:
  "\<exists>n. snd (capture_loop s i cycles w) = w\<lparr>pin_reads := n\<rparr> \<and>
       length (fst (capture_loop s i cycles w)) = length cycles"
proof (induction s i cycles w rule: capture_loop.induct)
  case (1 s i cycles w)
  show ?case
  proof (cases "i < 80")
    case False
    then have "capture_loop s i cycles w = (cycles, w)"
      by (subst capture_loop.simps) simp
    then show ?thesis
      by (intro exI [of _ "pin_reads w"]) simp
  next
    case True
    obtain lo w1 where lo: "expectPulse s LOW w = (lo, w1)" by (cases "expectPulse s LOW w")
    obtain hi w2 where hi: "expectPulse s HIGH w1 = (hi, w2)" by (cases "expectPulse s HIGH w1")
    from expectPulse_world [of s LOW w] lo obtain n1 where w1: "w1 = w\<lparr>pin_reads := n1\<rparr>" by auto
    from expectPulse_world [of s HIGH w1] hi obtain n2 where w2: "w2 = w\<lparr>pin_reads := n2\<rparr>"
      by (auto simp add: w1)
    have step: "capture_loop s i cycles w = capture_loop s (i + 2) (cycles[i := lo, i + 1 := hi]) w2"
      using True lo hi by (subst capture_loop.simps) simp
    from "1.IH" [OF True lo [symmetric] hi [symmetric]]
    show ?thesis unfolding step by (auto simp add: w2)
  qed
qed

lemma capture_world:
  "\<exists>n. snd (capture s w) = w\<lparr>pin_reads := n\<rparr> \<and> length (fst (capture s w)) = 80"
  using capture_loop_world [of s 0 "replicate 80 0" w] by (simp add: capture_def)

lemma capture_loop_cong:
  "maxcycles s = maxcycles t \<Longrightarrow> capture_loop s i cycles w = capture_loop t i cycles w"
proof (induction s i cycles w rule: capture_loop.induct)
  case (1 s i cycles w)
  note eq = expectPulse_cong [OF "1.prems"]
  show ?case
  proof (cases "i < 80")
    case False
    then show ?thesis by (subst (1 2) capture_loop.simps) simp
  next
    case True
    obtain lo w1 where lo: "expectPulse s LOW w = (lo, w1)" by (cases "expectPulse s LOW w")
    obtain hi w2 where hi: "expectPulse s HIGH w1 = (hi, w2)" by (cases "expectPulse s HIGH w1")
    from "1.IH" [OF True lo [symmetric] hi [symmetric] "1.prems"]
    show ?thesis
      using True lo hi by (subst (1 2) capture_loop.simps) (simp add: eq [symmetric])
  qed
qed

lemma capture_cong: "maxcycles s = maxcycles t \<Longrightarrow> capture s w = capture t w"
  unfolding capture_def by (rule capture_loop_cong)

lemma decode_loop_length: "length (snd (decode_loop i cycles d)) = length d"
proof (induction i cycles d rule: decode_loop.induct)
  case (1 i cycles d)
  let ?lo = "cycles ! (2 * i)" and ?hi = "cycles ! (2 * i + 1)"
  let ?d1 = "d[i div 8 := push_bit 1 (d ! (i div 8))]"
  let ?d2 = "if decode_bit ?lo ?hi then ?d1[i div 8 := (?d1 ! (i div 8)) OR 1] else ?d1"
  show ?case
  proof (cases "i < 40 \<and> \<not> (?lo = 0 \<or> ?hi = 0)")
    case False
    then show ?thesis by (subst decode_loop.simps) (auto simp add: Let_def)
  next
    case True
    then have "length (snd (decode_loop (i + 1) cycles ?d2)) = length ?d2"
      by (intro "1.IH" [OF _ refl refl _ refl refl]) simp_all
    moreover have "decode_loop i cycles d = decode_loop (i + 1) cycles ?d2"
      using True by (subst decode_loop.simps) (simp add: Let_def)
    ultimately show ?thesis by simp
  qed
qed

lemma decode_and_check_state:
  "\<exists>d. decode_and_check cycles s =
         (fst (decode_and_check cycles s),
          s\<lparr>data := d, lastresult := fst (decode_and_check cycles s)\<rparr>) \<and>
       length d = length (data s)"
proof -
  obtain ok d where run: "decode_loop 0 cycles (data s) = (ok, d)"
    by (cases "decode_loop 0 cycles (data s)")
  from decode_loop_length [of 0 cycles "data s"] run have "length d = length (data s)" by simp
  then show ?thesis
    by (intro exI [of _ d]) (simp add: decode_and_check_def run)
qed

lemma priv_read_cached:
  "rate_limited s (millis_seq w (millis_calls w)) \<Longrightarrow>
   priv_read s w = (lastresult s, s, w\<lparr>millis_calls := millis_calls w + 1\<rparr>)"
  by (simp add: priv_read_def millis_def)

lemma priv_read_hardware:
  assumes "\<not> rate_limited s (millis_seq w (millis_calls w))"
  shows "\<exists>ok d n. priv_read s w =
           (ok, s\<lparr>data := d, lastreadtime := millis_seq w (millis_calls w), lastresult := ok\<rparr>,
            w\<lparr>millis_calls := millis_calls w + 1, pin_reads := n,
              events := events w @ start_events @ [InterruptLockRelease]\<rparr>) \<and>
           length d = 5"
proof -
  let ?now = "millis_seq w (millis_calls w)"
  let ?w0 = "w\<lparr>millis_calls := Suc (millis_calls w)\<rparr>"
  let ?s2 = "s\<lparr>lastreadtime := ?now, data := [0, 0, 0, 0, 0]\<rparr>"
  let ?w1 = "start_signal ?w0"
  obtain p w2 where p: "expectPulse ?s2 LOW ?w1 = (p, w2)" by (cases "expectPulse ?s2 LOW ?w1")
  obtain q w3 where q: "expectPulse ?s2 HIGH w2 = (q, w3)" by (cases "expectPulse ?s2 HIGH w2")
  obtain cycles w4 where c: "capture ?s2 w3 = (cycles, w4)" by (cases "capture ?s2 w3")
  from expectPulse_world [of ?s2 LOW ?w1] p obtain n2 where w2: "w2 = ?w1\<lparr>pin_reads := n2\<rparr>"
    by auto
  from expectPulse_world [of ?s2 HIGH w2] q obtain n3 where w3: "w3 = ?w1\<lparr>pin_reads := n3\<rparr>"
    by (auto simp add: w2)
  from capture_world [of ?s2 w3] c obtain n4 where w4: "w4 = ?w1\<lparr>pin_reads := n4\<rparr>"
    by (auto simp add: w3)
  from decode_and_check_state [of cycles ?s2] obtain d where
    dc: "decode_and_check cycles ?s2 =
          (fst (decode_and_check cycles ?s2),
           ?s2\<lparr>data := d, lastresult := fst (decode_and_check cycles ?s2)\<rparr>)"
    and len: "length d = 5" by auto
  have unfold: "priv_read s w =
     (if p = 0 then (False, ?s2\<lparr>lastresult := False\<rparr>, emit InterruptLockRelease w2)
      else if q = 0 then (False, ?s2\<lparr>lastresult := False\<rparr>, emit InterruptLockRelease w3)
      else (fst (decode_and_check cycles ?s2), snd (decode_and_check cycles ?s2),
            emit InterruptLockRelease w4))"
    using assms by (simp add: priv_read_def millis_def Let_def p q c split_beta)
  consider "p = 0" | "p \<noteq> 0" "q = 0" | "p \<noteq> 0" "q \<noteq> 0" by blast
  then show ?thesis
  proof cases
    case 1
    then have "priv_read s w = (False, ?s2\<lparr>lastresult := False\<rparr>, emit InterruptLockRelease w2)"
      by (simp add: unfold)
    then show ?thesis
      by (intro exI [of _ False] exI [of _ "[0, 0, 0, 0, 0]"] exI [of _ n2])
        (simp add: w2 emit_def start_signal_events)
  next
    case 2
    then have "priv_read s w = (False, ?s2\<lparr>lastresult := False\<rparr>, emit InterruptLockRelease w3)"
      by (simp add: unfold)
    then show ?thesis
      by (intro exI [of _ False] exI [of _ "[0, 0, 0, 0, 0]"] exI [of _ n3])
        (simp add: w3 emit_def start_signal_events)
  next
    case 3
    then have "priv_read s w = (fst (decode_and_check cycles ?s2),
        ?s2\<lparr>data := d, lastresult := fst (decode_and_check cycles ?s2)\<rparr>,
        emit InterruptLockRelease w4)"
      using dc by (simp add: unfold) (metis snd_conv)
    then show ?thesis using len
      by (intro exI [of _ "fst (decode_and_check cycles ?s2)"] exI [of _ d] exI [of _ n4])
        (simp add: w4 emit_def start_signal_events)
  qed
qed

lemma priv_read_run:
  assumes nr: "\<not> rate_limited s (millis_seq w (millis_calls w))"
    and p: "expectPulse s LOW (start_signal (snd (millis w))) = (p, w2)" and pz: "p \<noteq> 0"
    and q: "expectPulse s HIGH w2 = (q, w3)" and qz: "q \<noteq> 0"
    and c: "capture s w3 = (cycles, w4)"
  shows "priv_read s w =
      (fst (decode_and_check cycles
             (s\<lparr>lastreadtime := millis_seq w (millis_calls w), data := [0, 0, 0, 0, 0]\<rparr>)),
       snd (decode_and_check cycles
             (s\<lparr>lastreadtime := millis_seq w (millis_calls w), data := [0, 0, 0, 0, 0]\<rparr>)),
       emit InterruptLockRelease w4)"
proof -
  let ?s2 = "s\<lparr>lastreadtime := millis_seq w (millis_calls w), data := [0, 0, 0, 0, 0]\<rparr>"
  have mc: "maxcycles ?s2 = maxcycles s" by simp
  have p': "expectPulse ?s2 LOW (start_signal (w\<lparr>millis_calls := Suc (millis_calls w)\<rparr>)) = (p, w2)"
    using p unfolding expectPulse_cong [OF mc] by (simp add: millis_def)
  have q': "expectPulse ?s2 HIGH w2 = (q, w3)"
    using q unfolding expectPulse_cong [OF mc] by simp
  have c': "capture ?s2 w3 = (cycles, w4)"
    using c unfolding capture_cong [OF mc] by simp
  show ?thesis
    using nr pz qz by (simp add: priv_read_def millis_def Let_def p' q' c' split_beta)
qed

lemma expectPulse_idle:
  "pin_seq w = (\<lambda>n. HIGH) \<Longrightarrow> expectPulse s LOW w = (0, w\<lparr>pin_reads := pin_reads w + 1\<rparr>)"
  by (simp add: expectPulse_def expectPulse_loop_leave)

lemma priv_read_unplugged:
  assumes "\<not> rate_limited s (millis_seq w (millis_calls w))" "pin_seq w = (\<lambda>n. HIGH)"
  shows "priv_read s w =
    (False,
     s\<lparr>data := [0, 0, 0, 0, 0], lastreadtime := millis_seq w (millis_calls w), lastresult := False\<rparr>,
     w\<lparr>millis_calls := millis_calls w + 1, pin_reads := pin_reads w + 1,
       events := events w @ start_events @ [InterruptLockRelease]\<rparr>)"
  using assms
  by (simp add: priv_read_def millis_def Let_def expectPulse_idle start_signal_events emit_def)

section \<open>The rate limit\<close>

text \<open>
  C2 (as amended). A call of \<open>_read\<close> whose clock value is less than 2000 ms (in
  wrapping 32-bit arithmetic) after \<open>_lastreadtime\<close> touches no hardware: it returns
  \<open>_lastresult\<close> and leaves the object and the world as they are, but for the one clock
  read. \<open>_lastreadtime\<close> is the time of the last call that took the hardware path, so
  this holds in particular for the second of two calls less than 2000 ms apart when the
  first one took the hardware path: the second returns what the first returned.
\<close>

theorem cached_within_interval:
  "(rate_limited s (millis_seq w (millis_calls w)) \<longrightarrow>
      priv_read s w = (lastresult s, s, w\<lparr>millis_calls := millis_calls w + 1\<rparr>)) \<and>
   (\<not> rate_limited s (millis_seq w (millis_calls w)) \<and> priv_read s w = (r1, s1, w1) \<and>
    millis_seq w1 (millis_calls w1) - millis_seq w (millis_calls w) < 2000 \<longrightarrow>
      priv_read s1 w1 = (r1, s1, w1\<lparr>millis_calls := millis_calls w1 + 1\<rparr>))"
proof (intro conjI impI)
  assume "rate_limited s (millis_seq w (millis_calls w))"
  then show "priv_read s w = (lastresult s, s, w\<lparr>millis_calls := millis_calls w + 1\<rparr>)"
    by (rule priv_read_cached)
next
  assume h: "\<not> rate_limited s (millis_seq w (millis_calls w)) \<and> priv_read s w = (r1, s1, w1) \<and>
    millis_seq w1 (millis_calls w1) - millis_seq w (millis_calls w) < 2000"
  with priv_read_hardware [of s w] have
    "lastreadtime s1 = millis_seq w (millis_calls w)" "lastresult s1 = r1" by auto
  with h have "rate_limited s1 (millis_seq w1 (millis_calls w1))" "lastresult s1 = r1"
    by (simp_all add: rate_limited_def)
  with priv_read_cached [of s1 w1]
  show "priv_read s1 w1 = (r1, s1, w1\<lparr>millis_calls := millis_calls w1 + 1\<rparr>)" by simp
qed

theorem cached_within_interval_witness:
  "priv_read fresh_dht recheck_world = (lastresult fresh_dht, fresh_dht, recheck_world\<lparr>millis_calls := 1\<rparr>) \<and>
   priv_read (fresh_dht\<lparr>data := [0, 0, 0, 0, 0], lastreadtime := 5000, lastresult := False\<rparr>)
       (unplugged_world\<lparr>millis_calls := 1, pin_reads := 1,
          events := start_events @ [InterruptLockRelease]\<rparr>) =
     (False, fresh_dht\<lparr>data := [0, 0, 0, 0, 0], lastreadtime := 5000, lastresult := False\<rparr>,
      unplugged_world\<lparr>millis_calls := 2, pin_reads := 1,
          events := start_events @ [InterruptLockRelease]\<rparr>)"
proof -
  let ?s1 = "fresh_dht\<lparr>data := [0, 0, 0, 0, 0], lastreadtime := 5000, lastresult := False\<rparr>"
  let ?w1 = "unplugged_world\<lparr>millis_calls := 1, pin_reads := 1,
          events := start_events @ [InterruptLockRelease]\<rparr>"
  have a: "rate_limited fresh_dht (millis_seq recheck_world (millis_calls recheck_world))"
    by (simp add: rate_limited_def recheck_world_def fresh_dht_def)
  have b: "\<not> rate_limited fresh_dht (millis_seq unplugged_world (millis_calls unplugged_world))"
    by (simp add: rate_limited_def unplugged_world_def fresh_dht_def)
  have "pin_seq unplugged_world = (\<lambda>n. HIGH)" by (simp add: unplugged_world_def)
  from priv_read_unplugged [OF b this]
  have c: "priv_read fresh_dht unplugged_world = (False, ?s1, ?w1)"
    by (simp add: unplugged_world_def)
  have d: "millis_seq ?w1 (millis_calls ?w1)
      - millis_seq unplugged_world (millis_calls unplugged_world) < 2000"
    by (simp add: unplugged_world_def)
  from cached_within_interval [of fresh_dht recheck_world] a
  have "priv_read fresh_dht recheck_world =
      (lastresult fresh_dht, fresh_dht, recheck_world\<lparr>millis_calls := millis_calls recheck_world + 1\<rparr>)"
    by blast
  moreover from cached_within_interval [of fresh_dht unplugged_world False ?s1 ?w1] b c d
  have "priv_read ?s1 ?w1 = (False, ?s1, ?w1\<lparr>millis_calls := millis_calls ?w1 + 1\<rparr>)"
    by blast
  ultimately show ?thesis by (simp add: recheck_world_def)
qed

text \<open>
  For two calls of which the first is itself answered from the cache the claim fails: the
  object was last read at time 0, a call at 1500 ms is answered from the cache, and the
  call at 2500 ms, only 1000 ms later, runs the whole start signal and changes the result,
  the frame and the timestamp.
\<close>

theorem cached_within_interval_counterexample:
  "millis_seq recheck_world 1 - millis_seq recheck_world 0 < 2000 \<and>
   priv_read fresh_dht recheck_world = (True, fresh_dht, recheck_world\<lparr>millis_calls := 1\<rparr>) \<and>
   priv_read fresh_dht (recheck_world\<lparr>millis_calls := 1\<rparr>) =
     (False, fresh_dht\<lparr>data := [0, 0, 0, 0, 0], lastreadtime := 2500, lastresult := False\<rparr>,
      recheck_world\<lparr>millis_calls := 2, pin_reads := 1,
        events := start_events @ [InterruptLockRelease]\<rparr>)"
proof -
  have a: "millis_seq recheck_world 1 - millis_seq recheck_world 0 < 2000"
    by (simp add: recheck_world_def)
  have "rate_limited fresh_dht (millis_seq recheck_world (millis_calls recheck_world))"
    by (simp add: rate_limited_def recheck_world_def fresh_dht_def)
  from priv_read_cached [OF this]
  have b: "priv_read fresh_dht recheck_world = (True, fresh_dht, recheck_world\<lparr>millis_calls := 1\<rparr>)"
    by (simp add: fresh_dht_def recheck_world_def)
  let ?w = "recheck_world\<lparr>millis_calls := 1\<rparr>"
  have "\<not> rate_limited fresh_dht (millis_seq ?w (millis_calls ?w))" "pin_seq ?w = (\<lambda>n. HIGH)"
    by (simp_all add: rate_limited_def recheck_world_def fresh_dht_def)
  from priv_read_unplugged [OF this]
  have c: "priv_read fresh_dht ?w =
     (False, fresh_dht\<lparr>data := [0, 0, 0, 0, 0], lastreadtime := 2500, lastresult := False\<rparr>,
      recheck_world\<lparr>millis_calls := 2, pin_reads := 1,
        events := start_events @ [InterruptLockRelease]\<rparr>)"
    by (simp add: recheck_world_def)
  from a b c show ?thesis by blast
qed

section \<open>The first read after construction\<close>

lemma after_begin_elapsed:
  fixes now :: uint32
  shows "now - (- MIN_INTERVAL) < 2000 \<longleftrightarrow> 2 ^ 32 - 2000 \<le> unat now"
proof -
  have n: "unat now < 2 ^ 32" using unsigned_less [of now] by simp
  have "unat (now + 2000) = (unat now + 2000) mod 2 ^ 32"
    by (simp add: unat_word_ariths)
  moreover have "(unat now + 2000) mod 2 ^ 32 =
      (if unat now + 2000 < 2 ^ 32 then unat now + 2000 else unat now + 2000 - 2 ^ 32)"
    using n by (simp add: mod_if)
  ultimately have "unat (now + 2000) < 2000 \<longleftrightarrow> 2 ^ 32 - 2000 \<le> unat now"
    using n by auto
  then show ?thesis
    by (simp add: MIN_INTERVAL_def word_less_nat_alt)
qed

lemma first_read_outside_wrap_window:
  assumes "Dht11 mc s0 w0 = (s, w)" "unat (millis_seq w (millis_calls w)) < 2 ^ 32 - 2000"
  shows "lastreadtime (fst (snd (priv_read s w))) = millis_seq w (millis_calls w)"
    and "events (snd (snd (priv_read s w))) = events w @ start_events @ [InterruptLockRelease]"
proof -
  from assms(1) have "lastreadtime s = - MIN_INTERVAL"
    by (auto simp add: Dht11_def Dht11_begin_def)
  with assms(2) have "\<not> rate_limited s (millis_seq w (millis_calls w))"
    using after_begin_elapsed [of "millis_seq w (millis_calls w)"] by (simp add: rate_limited_def)
  from priv_read_hardware [OF this]
  show "lastreadtime (fst (snd (priv_read s w))) = millis_seq w (millis_calls w)"
    and "events (snd (snd (priv_read s w))) = events w @ start_events @ [InterruptLockRelease]"
    by auto
qed

lemma first_read_inside_wrap_window:
  assumes "Dht11 mc s0 w0 = (s, w)" "2 ^ 32 - 2000 \<le> unat (millis_seq w (millis_calls w))"
  shows "priv_read s w = (lastresult s0, s, w\<lparr>millis_calls := millis_calls w + 1\<rparr>)"
proof -
  from assms(1) have s: "lastreadtime s = - MIN_INTERVAL" "lastresult s = lastresult s0"
    by (auto simp add: Dht11_def Dht11_begin_def)
  with assms(2) have "rate_limited s (millis_seq w (millis_calls w))"
    using after_begin_elapsed [of "millis_seq w (millis_calls w)"] by (simp add: rate_limited_def)
  from priv_read_cached [OF this] s(2) show ?thesis by simp
qed

text \<open>
  C7. The first call of \<open>_read\<close> after construction is meant to take the hardware path
  whatever the clock shows: \<open>begin\<close> sets \<open>_lastreadtime = -MIN_INTERVAL\<close> and says in its
  comment that this makes sure that \<open>millis() - lastreadtime\<close> is at least
  \<open>MIN_INTERVAL\<close> right away. The code does not achieve it. With the clock at
  4294967295, one millisecond before its 32-bit wrap, the wrapping difference is 1999:
  the first call is answered from the cache, returns the \<open>_lastresult\<close> that the
  constructor never assigned (true for one content of that memory, false for another),
  leaves the object as it is and issues no start signal. The same happens at every clock
  value from \<open>2\<^sup>3\<^sup>2 - 2000\<close> on (\<open>first_read_inside_wrap_window\<close>); below it the first call
  does take the hardware path (\<open>first_read_outside_wrap_window\<close>).
\<close>

theorem first_read_at_wrap_is_cached:
  "Dht11 1000 fresh_dht wrap_world =
     (fresh_dht\<lparr>lastreadtime := - MIN_INTERVAL\<rparr>, wrap_world\<lparr>events := [PinMode INPUT_PULLUP]\<rparr>) \<and>
   millis_seq wrap_world 0 = 4294967295 \<and>
   millis_seq wrap_world 0 - (- MIN_INTERVAL) = 1999 \<and>
   priv_read (fresh_dht\<lparr>lastreadtime := - MIN_INTERVAL\<rparr>)
       (wrap_world\<lparr>events := [PinMode INPUT_PULLUP]\<rparr>) =
     (lastresult fresh_dht, fresh_dht\<lparr>lastreadtime := - MIN_INTERVAL\<rparr>,
      wrap_world\<lparr>millis_calls := 1, events := [PinMode INPUT_PULLUP]\<rparr>) \<and>
   fst (priv_read (fst (Dht11 1000 (fresh_dht\<lparr>lastresult := False\<rparr>) wrap_world))
       (snd (Dht11 1000 (fresh_dht\<lparr>lastresult := False\<rparr>) wrap_world))) = False"
proof -
  let ?s = "fresh_dht\<lparr>lastreadtime := - MIN_INTERVAL\<rparr>"
  let ?w = "wrap_world\<lparr>events := [PinMode INPUT_PULLUP]\<rparr>"
  have c: "Dht11 1000 s0 wrap_world = (s0\<lparr>lastreadtime := - MIN_INTERVAL, maxcycles := 1000\<rparr>, ?w)" for s0
    by (simp add: Dht11_def Dht11_begin_def pinMode_def emit_def wrap_world_def)
  have c1: "Dht11 1000 fresh_dht wrap_world = (?s, ?w)"
    unfolding c by (simp add: fresh_dht_def)
  have m: "millis_seq wrap_world 0 = 4294967295" by (simp add: wrap_world_def)
  have e: "millis_seq wrap_world 0 - (- MIN_INTERVAL) = 1999"
    by (simp add: m MIN_INTERVAL_def)
  have r: "rate_limited s (millis_seq ?w (millis_calls ?w))" if "lastreadtime s = - MIN_INTERVAL" for s
    by (simp add: rate_limited_def wrap_world_def MIN_INTERVAL_def that)
  have "priv_read ?s ?w = (lastresult ?s, ?s, ?w\<lparr>millis_calls := millis_calls ?w + 1\<rparr>)"
    by (rule priv_read_cached [OF r]) simp
  then have p: "priv_read ?s ?w = (lastresult fresh_dht, ?s,
      wrap_world\<lparr>millis_calls := 1, events := [PinMode INPUT_PULLUP]\<rparr>)"
    by (simp add: wrap_world_def)
  let ?t = "fresh_dht\<lparr>lastresult := False, lastreadtime := - MIN_INTERVAL, maxcycles := 1000\<rparr>"
  have "priv_read ?t ?w = (lastresult ?t, ?t, ?w\<lparr>millis_calls := millis_calls ?w + 1\<rparr>)"
    by (rule priv_read_cached [OF r]) simp
  then have f: "fst (priv_read (fst (Dht11 1000 (fresh_dht\<lparr>lastresult := False\<rparr>) wrap_world))
       (snd (Dht11 1000 (fresh_dht\<lparr>lastresult := False\<rparr>) wrap_world))) = False"
    unfolding c by simp
  from c1 m e p f show ?thesis by blast
qed

section \<open>Decoding\<close>

lemma decode_loop_step:
  assumes "i < 40" "cycles ! (2 * i) \<noteq> 0" "cycles ! (2 * i + 1) \<noteq> 0" "i div 8 < length d"
  shows "decode_loop i cycles d =
         decode_loop (i + 1) cycles
           (d[i div 8 := push_bit 1 (d ! (i div 8)) OR of_bool (pulse_bit cycles i)])"
  using assms
  by (subst decode_loop.simps) (simp add: Let_def pulse_bit_def)

lemma decode_loop_done: "40 \<le> i \<Longrightarrow> decode_loop i cycles d = (True, d)"
  by (subst decode_loop.simps) simp

lemma bit_shift_in:
  fixes x :: uint8
  assumes "n < 8"
  shows "bit (push_bit 1 x OR of_bool c) n = (if n = 0 then c else bit x (n - 1))"
proof -
  have "bit (push_bit 1 x OR of_bool c) n \<longleftrightarrow> bit (push_bit 1 x) n \<or> bit (of_bool c :: uint8) n"
    by (rule bit_or_iff)
  moreover have "bit (push_bit 1 x) n \<longleftrightarrow> 1 \<le> n \<and> bit x (n - 1)"
    using assms unfolding bit_push_bit_iff by (simp add: possible_bit_word)
  moreover have "bit (of_bool c :: uint8) n \<longleftrightarrow> c \<and> n = 0"
    by (auto simp add: bit_of_bool_iff)
  ultimately show ?thesis by auto
qed

lemma shifts_left_same_byte:
  "i div 8 = b \<Longrightarrow> shifts_left b i = Suc (shifts_left b (i + 1)) \<and> 8 * b + 7 - shifts_left b (i + 1) = i"
  unfolding shifts_left_def by (auto simp add: min_def)

lemma shifts_left_other_byte:
  "i div 8 \<noteq> b \<Longrightarrow> shifts_left b (i + 1) = shifts_left b i"
  unfolding shifts_left_def by (auto simp add: min_def)

lemma decode_loop_bits:
  assumes "m = 40 - i" "i \<le> 40" "length d = 5" "\<forall>k<80. cycles ! k \<noteq> 0"
  shows "\<exists>d'. decode_loop i cycles d = (True, d') \<and> length d' = 5 \<and>
           (\<forall>b<5. \<forall>n<8. bit (d' ! b) n =
              (if n < shifts_left b i then pulse_bit cycles (8 * b + 7 - n)
               else bit (d ! b) (n - shifts_left b i)))"
  using assms
proof (induction m arbitrary: i d)
  case 0
  then have i: "i = 40" by simp
  have "\<forall>b<5. shifts_left b 40 = 0" by (simp add: shifts_left_def)
  then show ?case using "0.prems"(3) by (simp add: i decode_loop_done)
next
  case (Suc m)
  let ?b0 = "i div 8"
  let ?d2 = "d[?b0 := push_bit 1 (d ! ?b0) OR of_bool (pulse_bit cycles i)]"
  from Suc.prems have i: "i < 40" by simp
  then have b0: "?b0 < 5" by simp
  have step: "decode_loop i cycles d = decode_loop (i + 1) cycles ?d2"
    using i Suc.prems(3,4) b0 by (intro decode_loop_step) simp_all
  have "m = 40 - (i + 1)" "i + 1 \<le> 40" "length ?d2 = 5"
    using Suc.prems by simp_all
  from Suc.IH [OF this Suc.prems(4)] obtain d' where
    run: "decode_loop (i + 1) cycles ?d2 = (True, d')" and len: "length d' = 5" and
    bits: "\<And>b n. b < 5 \<Longrightarrow> n < 8 \<Longrightarrow> bit (d' ! b) n =
              (if n < shifts_left b (i + 1) then pulse_bit cycles (8 * b + 7 - n)
               else bit (?d2 ! b) (n - shifts_left b (i + 1)))"
    by blast
  have "bit (d' ! b) n =
          (if n < shifts_left b i then pulse_bit cycles (8 * b + 7 - n)
           else bit (d ! b) (n - shifts_left b i))" if b: "b < 5" and n: "n < 8" for b n
  proof (cases "?b0 = b")
    case False
    then have "?d2 ! b = d ! b" by simp
    then show ?thesis
      using bits [OF b n] shifts_left_other_byte [OF False] by simp
  next
    case True
    from shifts_left_same_byte [OF True]
    have r: "shifts_left b i = Suc (shifts_left b (i + 1))"
      and k: "8 * b + 7 - shifts_left b (i + 1) = i" by simp_all
    have upd: "?d2 ! b = push_bit 1 (d ! b) OR of_bool (pulse_bit cycles i)"
      using True b Suc.prems(3) by simp
    show ?thesis
    proof (cases "n < shifts_left b (i + 1)")
      case True
      then show ?thesis using bits [OF b n] r by simp
    next
      case False
      then have "bit (d' ! b) n = bit (?d2 ! b) (n - shifts_left b (i + 1))"
        using bits [OF b n] by simp
      also have "\<dots> = (if n - shifts_left b (i + 1) = 0 then pulse_bit cycles i
                       else bit (d ! b) (n - shifts_left b (i + 1) - 1))"
        unfolding upd using n by (intro bit_shift_in) simp
      finally have eq: "bit (d' ! b) n =
          (if n - shifts_left b (i + 1) = 0 then pulse_bit cycles i
           else bit (d ! b) (n - shifts_left b (i + 1) - 1))" .
      show ?thesis
      proof (cases "n = shifts_left b (i + 1)")
        case True
        with k have "8 * b + 7 - n = i" by simp
        with eq True r show ?thesis by simp
      next
        case neq: False
        with False have "shifts_left b i \<le> n" "n - shifts_left b (i + 1) \<noteq> 0"
          and "n - shifts_left b (i + 1) - 1 = n - shifts_left b i"
          using r by simp_all
        with eq show ?thesis by simp
      qed
    qed
  qed
  then show ?case using step run len by simp
qed

lemma decode_loop_full:
  assumes "length d = 5" "\<forall>k<80. cycles ! k \<noteq> 0"
  shows "\<exists>d'. decode_loop 0 cycles d = (True, d') \<and> length d' = 5 \<and>
           (\<forall>b<5. \<forall>n<8. bit (d' ! b) n = pulse_bit cycles (8 * b + 7 - n))"
proof -
  have "\<forall>b<5. shifts_left b 0 = 8" by (simp add: shifts_left_def)
  with decode_loop_bits [of 40 0 d cycles] assms show ?thesis by simp
qed

lemma decode_loop_bit_position:
  assumes "length d = 5" "\<forall>k<80. cycles ! k \<noteq> 0" "i < 40"
  shows "fst (decode_loop 0 cycles d)"
    and "bit (snd (decode_loop 0 cycles d) ! (i div 8)) (7 - i mod 8) = pulse_bit cycles i"
proof -
  from decode_loop_full [OF assms(1,2)] obtain d' where
    run: "decode_loop 0 cycles d = (True, d')" and
    bits: "\<And>b n. b < 5 \<Longrightarrow> n < 8 \<Longrightarrow> bit (d' ! b) n = pulse_bit cycles (8 * b + 7 - n)"
    by blast
  show "fst (decode_loop 0 cycles d)" by (simp add: run)
  have "i div 8 < 5" "7 - i mod 8 < 8" using assms(3) by simp_all
  from bits [OF this] have "bit (d' ! (i div 8)) (7 - i mod 8)
      = pulse_bit cycles (8 * (i div 8) + 7 - (7 - i mod 8))" .
  moreover have "8 * (i div 8) + 7 - (7 - i mod 8) = i"
    by presburger
  ultimately show "bit (snd (decode_loop 0 cycles d) ! (i div 8)) (7 - i mod 8) = pulse_bit cycles i"
    by (simp add: run)
qed

lemma pulses_of_frame_nth:
  "k < 80 \<Longrightarrow> pulses_of_frame f ! k =
     (if even k then 50 else if bit (f ! (k div 16)) (7 - (k div 2) mod 8) then 70 else 30)"
  by (simp add: pulses_of_frame_def del: upt_Suc)

lemma pulses_of_frame_nonzero: "\<forall>k<80. pulses_of_frame f ! k \<noteq> 0"
  by (simp add: pulses_of_frame_nth)

lemma pulse_index_byte: "m < (8::nat) \<Longrightarrow> (2 * (8 * b + m) + 1) div 16 = b"
proof -
  assume m: "m < 8"
  have "2 * (8 * b + m) + 1 = (2 * m + 1) + b * 16" by simp
  then have "(2 * (8 * b + m) + 1) div 16 = (2 * m + 1) div 16 + b"
    by (simp only: div_mult_self1)
  with m show ?thesis by simp
qed

lemma pulse_index_bit: "m < (8::nat) \<Longrightarrow> ((2 * (8 * b + m) + 1) div 2) mod 8 = m"
  by simp

lemma pulse_bit_pulses_of_frame:
  assumes "b < 5" "n < 8"
  shows "pulse_bit (pulses_of_frame f) (8 * b + 7 - n) = bit (f ! b) n"
proof -
  define m where "m = 7 - n"
  have m: "m < 8" "7 - m = n" "8 * b + 7 - n = 8 * b + m"
    using assms(2) by (simp_all add: m_def)
  have i: "2 * (8 * b + m) < 80" "2 * (8 * b + m) + 1 < 80"
    using assms(1) m(1) by simp_all
  show ?thesis
    unfolding m(3) pulse_bit_def pulses_of_frame_nth [OF i(1)] pulses_of_frame_nth [OF i(2)]
    using pulse_index_byte [OF m(1), of b] pulse_index_bit [OF m(1), of b] m(2)
    by (simp add: decode_bit_def)
qed

lemma decode_pulses_of_frame:
  assumes "length f = 5" "length d = 5"
  shows "decode_loop 0 (pulses_of_frame f) d = (True, f)"
proof -
  from decode_loop_full [OF assms(2) pulses_of_frame_nonzero [of f]] obtain d' where
    run: "decode_loop 0 (pulses_of_frame f) d = (True, d')" and len: "length d' = 5" and
    bits: "\<And>b n. b < 5 \<Longrightarrow> n < 8 \<Longrightarrow>
             bit (d' ! b) n = pulse_bit (pulses_of_frame f) (8 * b + 7 - n)"
    by blast
  have "d' ! b = f ! b" if b: "b < 5" for b
  proof (rule bit_word_eqI)
    fix n assume "n < LENGTH(8)"
    then have n: "n < 8" by simp
    show "bit (d' ! b) n = bit (f ! b) n"
      using bits [OF b n] pulse_bit_pulses_of_frame [OF b n] by simp
  qed
  then have "d' = f" using len assms(1) by (intro nth_equalityI) simp_all
  with run show ?thesis by simp
qed

lemma checksum_ok_iff_frame_valid: "checksum_ok d \<longleftrightarrow> frame_valid d"
proof -
  have m: "(255::int) = mask 8" by (simp add: mask_eq_exp_minus_1)
  have "(uint (d ! 0) + uint (d ! 1) + uint (d ! 2) + uint (d ! 3)) AND 255
      = int ((unat (d ! 0) + unat (d ! 1) + unat (d ! 2) + unat (d ! 3)) mod 256)"
    unfolding m by (simp add: take_bit_eq_mask [symmetric] take_bit_eq_mod zmod_int)
  moreover have "uint (d ! 4) = int (unat (d ! 4))" by simp
  ultimately show ?thesis
    unfolding checksum_ok_def frame_valid_def by (metis of_nat_eq_iff)
qed

lemma decode_and_check_full:
  assumes "length (data s) = 5" "\<forall>k<80. cycles ! k \<noteq> 0"
  shows "\<exists>d. decode_loop 0 cycles (data s) = (True, d) \<and> length d = 5 \<and>
           decode_and_check cycles s = (frame_valid d, s\<lparr>data := d, lastresult := frame_valid d\<rparr>)"
proof -
  from decode_loop_full [OF assms] obtain d where
    run: "decode_loop 0 cycles (data s) = (True, d)" and len: "length d = 5" by blast
  then show ?thesis
    by (intro exI [of _ d]) (simp add: decode_and_check_def checksum_ok_iff_frame_valid)
qed

text \<open>
  C4. An iteration of the decode loop whose two samples are non-zero shifts byte
  \<open>i / 8\<close> left by one and puts a one into its lowest bit exactly when
  \<open>highCycles > lowCycles\<close>. After a full run over eighty non-zero samples bit \<open>i\<close> of the
  frame stands in byte \<open>i / 8\<close> at position \<open>7 - i mod 8\<close>: most significant bit first.
  The pair (50, 30) decodes to 0 and (50, 70) to 1, and multiplying both counts by the
  same positive factor changes nothing, as long as the products are counts a
  \<open>uint32_t\<close> can hold.
\<close>

theorem bit_decode_rule:
  "(i < 40 \<and> cycles ! (2 * i) \<noteq> 0 \<and> cycles ! (2 * i + 1) \<noteq> 0 \<and> length d = 5 \<longrightarrow>
      decode_loop i cycles d =
        decode_loop (i + 1) cycles
          (d[i div 8 := push_bit 1 (d ! (i div 8))
                          OR of_bool (cycles ! (2 * i + 1) > cycles ! (2 * i))])) \<and>
   (i < 40 \<and> length cycles = 80 \<and> (\<forall>k<80. cycles ! k \<noteq> 0) \<and> length d = 5 \<longrightarrow>
      fst (decode_loop 0 cycles d) \<and>
      bit (snd (decode_loop 0 cycles d) ! (i div 8)) (7 - i mod 8)
        = (cycles ! (2 * i + 1) > cycles ! (2 * i))) \<and>
   \<not> decode_bit 50 30 \<and> decode_bit 50 70 \<and>
   (0 < k \<and> k * unat lowCycles < 2 ^ 32 \<and> k * unat highCycles < 2 ^ 32 \<longrightarrow>
      decode_bit (of_nat (k * unat lowCycles)) (of_nat (k * unat highCycles))
        = decode_bit lowCycles highCycles)"
proof (intro conjI impI)
  assume "i < 40 \<and> cycles ! (2 * i) \<noteq> 0 \<and> cycles ! (2 * i + 1) \<noteq> 0 \<and> length d = 5"
  then have "i < 40" "cycles ! (2 * i) \<noteq> 0" "cycles ! (2 * i + 1) \<noteq> 0" "i div 8 < length d"
    by auto
  from decode_loop_step [OF this]
  show "decode_loop i cycles d =
        decode_loop (i + 1) cycles
          (d[i div 8 := push_bit 1 (d ! (i div 8))
                          OR of_bool (cycles ! (2 * i + 1) > cycles ! (2 * i))])"
    unfolding pulse_bit_def decode_bit_def .
next
  assume h: "i < 40 \<and> length cycles = 80 \<and> (\<forall>k<80. cycles ! k \<noteq> 0) \<and> length d = 5"
  then show "fst (decode_loop 0 cycles d)"
    using decode_loop_bit_position(1) [of d cycles i] by blast
  from h show "bit (snd (decode_loop 0 cycles d) ! (i div 8)) (7 - i mod 8)
        = (cycles ! (2 * i + 1) > cycles ! (2 * i))"
    using decode_loop_bit_position(2) [of d cycles i] by (simp add: pulse_bit_def decode_bit_def)
next
  show "\<not> decode_bit 50 30" "decode_bit 50 70" by (simp_all add: decode_bit_def)
next
  assume h: "0 < k \<and> k * unat lowCycles < 2 ^ 32 \<and> k * unat highCycles < 2 ^ 32"
  then have lt: "k * unat lowCycles < 2 ^ LENGTH(32)" "k * unat highCycles < 2 ^ LENGTH(32)"
    by simp_all
  have "unat (of_nat (k * unat lowCycles) :: uint32) = k * unat lowCycles"
    "unat (of_nat (k * unat highCycles) :: uint32) = k * unat highCycles"
    by (simp_all only: unat_of_nat mod_less [OF lt(1)] mod_less [OF lt(2)])
  with h show "decode_bit (of_nat (k * unat lowCycles)) (of_nat (k * unat highCycles))
        = decode_bit lowCycles highCycles"
    unfolding decode_bit_def word_less_nat_alt by simp
qed

theorem bit_decode_rule_witness:
  "decode_loop 2 (pulses_of_frame [40, 0, 25, 0, 65]) [0, 0, 0, 0, 0] =
     decode_loop 3 (pulses_of_frame [40, 0, 25, 0, 65]) [1, 0, 0, 0, 0] \<and>
   fst (decode_loop 0 (pulses_of_frame [40, 0, 25, 0, 65]) [0, 0, 0, 0, 0]) \<and>
   bit (snd (decode_loop 0 (pulses_of_frame [40, 0, 25, 0, 65]) [0, 0, 0, 0, 0]) ! 0) 5 \<and>
   decode_bit 100 60 = decode_bit 50 30"
proof -
  let ?p = "pulses_of_frame [40, 0, 25, 0, 65]"
  note T = bit_decode_rule [where i = 2 and cycles = ?p and d = "[0, 0, 0, 0, 0]" and k = 2
      and lowCycles = 50 and highCycles = 30]
  have b5: "bit (40 :: uint8) 5"
    by (simp add: bit_iff_odd_drop_bit drop_bit_eq_div)
  have "(4::nat) < 80" by simp
  from pulses_of_frame_nth [OF this, of "[40, 0, 25, 0, 65]"]
  have n4: "?p ! 4 = 50" by simp
  have "(5::nat) < 80" by simp
  from pulses_of_frame_nth [OF this, of "[40, 0, 25, 0, 65]"] b5
  have n5: "?p ! 5 = 70" by simp
  note nth = n4 n5
  have nz: "length ?p = 80" "\<forall>k<80. ?p ! k \<noteq> 0"
    using pulses_of_frame_nonzero [of "[40, 0, 25, 0, 65]"] by (simp_all add: pulses_of_frame_def)
  from T nth have a: "decode_loop 2 ?p [0, 0, 0, 0, 0] = decode_loop 3 ?p [1, 0, 0, 0, 0]"
    by simp
  from T nth nz have b: "fst (decode_loop 0 ?p [0, 0, 0, 0, 0])"
    and c: "bit (snd (decode_loop 0 ?p [0, 0, 0, 0, 0]) ! 0) 5"
    by simp_all
  from T have d: "decode_bit 100 60 = decode_bit 50 30" by simp
  from a b c d show ?thesis by blast
qed

subsection \<open>A run that succeeds\<close>

lemma square_wave_low:
  assumes "pin_seq w = square_wave" "pin_reads w mod 4 = 0" "1 \<le> unat (maxcycles s)"
  shows "expectPulse s LOW w = (1, w\<lparr>pin_reads := pin_reads w + 2\<rparr>)"
proof -
  have a: "\<forall>j<1. pin_seq w (pin_reads w + j) = LOW"
    using assms(1,2) by (simp add: square_wave_def)
  have b: "pin_seq w (pin_reads w + 1) \<noteq> LOW"
    using assms(1,2) by (simp add: square_wave_def mod_Suc)
  from expectPulse_count [OF a b assms(3)] show ?thesis by simp
qed

lemma square_wave_high:
  assumes "pin_seq w = square_wave" "pin_reads w mod 4 = 2" "1 \<le> unat (maxcycles s)"
  shows "expectPulse s HIGH w = (1, w\<lparr>pin_reads := pin_reads w + 2\<rparr>)"
proof -
  have a: "\<forall>j<1. pin_seq w (pin_reads w + j) = HIGH"
    using assms(1,2) by (simp add: square_wave_def)
  have b: "pin_seq w (pin_reads w + 1) \<noteq> HIGH"
    using assms(1,2) by (simp add: square_wave_def mod_Suc)
  from expectPulse_count [OF a b assms(3)] show ?thesis by simp
qed

lemma square_wave_capture_loop:
  assumes "m = 80 - i" "pin_seq w = square_wave" "pin_reads w mod 4 = 0" "1 \<le> unat (maxcycles s)"
    "length cycles = 80" "\<forall>k<i. cycles ! k = 1" "even i"
  shows "(\<forall>k<80. fst (capture_loop s i cycles w) ! k = 1) \<and>
         snd (capture_loop s i cycles w) = w\<lparr>pin_reads := pin_reads w + 2 * (80 - i)\<rparr>"
  using assms
proof (induction m arbitrary: i w cycles rule: less_induct)
  case (less m)
  show ?case
  proof (cases "i < 80")
    case False
    then have "capture_loop s i cycles w = (cycles, w)" by (subst capture_loop.simps) simp
    with False less.prems(6) show ?thesis by simp
  next
    case True
    let ?w1 = "w\<lparr>pin_reads := pin_reads w + 2\<rparr>"
    let ?w2 = "w\<lparr>pin_reads := pin_reads w + 4\<rparr>"
    let ?c = "cycles[i := 1, i + 1 := 1]"
    have lo: "expectPulse s LOW w = (1, ?w1)"
      using less.prems(2,3,4) by (rule square_wave_low)
    have "pin_seq ?w1 = square_wave" "pin_reads ?w1 mod 4 = 2"
      using less.prems(2,3) by (simp_all add: mod_Suc)
    from square_wave_high [OF this less.prems(4)]
    have hi: "expectPulse s HIGH ?w1 = (1, ?w2)" by simp
    have step: "capture_loop s i cycles w = capture_loop s (i + 2) ?c ?w2"
      using True lo hi by (subst capture_loop.simps) simp
    have "i \<noteq> 79" using less.prems(7) by auto
    then have i: "i + 2 \<le> 80" using True by simp
    have nz: "\<forall>k<i + 2. ?c ! k = 1"
    proof (intro allI impI)
      fix k assume "k < i + 2"
      then consider "k < i" | "k = i" | "k = i + 1" by linarith
      then show "?c ! k = 1"
        using less.prems(5,6) i by cases (simp_all add: nth_list_update)
    qed
    have m: "80 - (i + 2) < m" using True less.prems(1) by simp
    have w2: "pin_seq ?w2 = square_wave" "pin_reads ?w2 mod 4 = 0"
      using less.prems(2,3) by (simp_all add: mod_Suc)
    have c: "length ?c = 80" "even (i + 2)"
      using less.prems(5,7) by simp_all
    have "pin_reads ?w2 + 2 * (80 - (i + 2)) = pin_reads w + 2 * (80 - i)"
      using i by simp
    with less.IH [OF m refl w2 less.prems(4) c(1) nz c(2)]
    show ?thesis unfolding step by simp
  qed
qed

lemma square_wave_capture:
  assumes "pin_seq w = square_wave" "pin_reads w mod 4 = 0" "1 \<le> unat (maxcycles s)"
  shows "(\<forall>k<80. fst (capture s w) ! k = 1) \<and>
         snd (capture s w) = w\<lparr>pin_reads := pin_reads w + 160\<rparr>"
  using square_wave_capture_loop [OF refl assms, of "replicate 80 0" 0]
  by (simp add: capture_def)

lemma decode_all_equal:
  assumes "length d = 5" "\<forall>k<80. cycles ! k = 1"
  shows "decode_loop 0 cycles d = (True, [0, 0, 0, 0, 0])"
proof -
  from assms(2) have nz: "\<forall>k<80. cycles ! k \<noteq> 0" by simp
  from decode_loop_full [OF assms(1) nz] obtain d' where
    run: "decode_loop 0 cycles d = (True, d')" and len: "length d' = 5" and
    bits: "\<And>b n. b < 5 \<Longrightarrow> n < 8 \<Longrightarrow> bit (d' ! b) n = pulse_bit cycles (8 * b + 7 - n)"
    by blast
  have "d' ! b = [0, 0, 0, 0, 0] ! b" if b: "b < 5" for b
  proof -
    have "d' ! b = 0"
    proof (rule bit_word_eqI)
      fix n assume "n < LENGTH(8)"
      then have n: "n < 8" by simp
      then have "2 * (8 * b + 7 - n) < 80" "2 * (8 * b + 7 - n) + 1 < 80" using b by simp_all
      with assms(2) have "pulse_bit cycles (8 * b + 7 - n) = False"
        by (simp add: pulse_bit_def decode_bit_def)
      with bits [OF b n] show "bit (d' ! b) n = bit (0 :: uint8) n" by simp
    qed
    moreover have "[0, 0, 0, 0, 0 :: uint8] ! b = 0"
      using b by (simp add: nth_Cons' )
    ultimately show ?thesis by simp
  qed
  then have "d' = [0, 0, 0, 0, 0]" using len by (intro nth_equalityI) simp_all
  with run show ?thesis by simp
qed

lemma priv_read_sensor_world:
  "priv_read fresh_dht sensor_world =
     (True, fresh_dht\<lparr>data := [0, 0, 0, 0, 0], lastreadtime := 5000, lastresult := True\<rparr>,
      sensor_world\<lparr>millis_calls := 1, pin_reads := 164,
        events := start_events @ [InterruptLockRelease]\<rparr>)"
proof -
  let ?s2 = "fresh_dht\<lparr>lastreadtime := millis_seq sensor_world (millis_calls sensor_world),
     data := [0, 0, 0, 0, 0]\<rparr>"
  let ?w1 = "start_signal (snd (millis sensor_world))"
  let ?w2 = "?w1\<lparr>pin_reads := pin_reads ?w1 + 2\<rparr>"
  let ?w3 = "?w2\<lparr>pin_reads := pin_reads ?w2 + 2\<rparr>"
  let ?w4 = "?w3\<lparr>pin_reads := pin_reads ?w3 + 160\<rparr>"
  have mc: "1 \<le> unat (maxcycles fresh_dht)" by (simp add: fresh_dht_def)
  have nr: "\<not> rate_limited fresh_dht (millis_seq sensor_world (millis_calls sensor_world))"
    by (simp add: rate_limited_def fresh_dht_def sensor_world_def)
  have "pin_seq ?w1 = square_wave" "pin_reads ?w1 mod 4 = 0"
    by (simp_all add: start_signal_events millis_def sensor_world_def)
  from square_wave_low [OF this mc]
  have p: "expectPulse fresh_dht LOW ?w1 = (1, ?w2)" .
  have "pin_seq ?w2 = square_wave" "pin_reads ?w2 mod 4 = 2"
    by (simp_all add: start_signal_events millis_def sensor_world_def)
  from square_wave_high [OF this mc]
  have q: "expectPulse fresh_dht HIGH ?w2 = (1, ?w3)" .
  have "pin_seq ?w3 = square_wave" "pin_reads ?w3 mod 4 = 0"
    by (simp_all add: start_signal_events millis_def sensor_world_def)
  from square_wave_capture [OF this mc]
  have c: "capture fresh_dht ?w3 = (fst (capture fresh_dht ?w3), ?w4)"
    and ones: "\<forall>k<80. fst (capture fresh_dht ?w3) ! k = 1"
    by (simp_all add: prod_eq_iff)
  have "decode_loop 0 (fst (capture fresh_dht ?w3)) (data ?s2) = (True, [0, 0, 0, 0, 0])"
    using ones by (intro decode_all_equal) simp_all
  then have d: "decode_and_check (fst (capture fresh_dht ?w3)) ?s2 =
      (True, ?s2\<lparr>data := [0, 0, 0, 0, 0], lastresult := True\<rparr>)"
    by (simp add: decode_and_check_def checksum_ok_def)
  have "priv_read fresh_dht sensor_world =
      (True, ?s2\<lparr>data := [0, 0, 0, 0, 0], lastresult := True\<rparr>, emit InterruptLockRelease ?w4)"
    using priv_read_run [OF nr p _ q _ c] d by simp
  then show ?thesis
    by (simp add: start_signal_events emit_def millis_def sensor_world_def)
qed

lemma sensor_world_pulses:
  "expectPulse fresh_dht LOW (start_signal (snd (millis sensor_world)))
     = (1, start_signal (snd (millis sensor_world))\<lparr>pin_reads := 2\<rparr>) \<and>
   expectPulse fresh_dht HIGH (start_signal (snd (millis sensor_world))\<lparr>pin_reads := 2\<rparr>)
     = (1, start_signal (snd (millis sensor_world))\<lparr>pin_reads := 4\<rparr>) \<and>
   snd (capture fresh_dht (start_signal (snd (millis sensor_world))\<lparr>pin_reads := 4\<rparr>))
     = start_signal (snd (millis sensor_world))\<lparr>pin_reads := 164\<rparr> \<and>
   (\<forall>k<80. fst (capture fresh_dht (start_signal (snd (millis sensor_world))\<lparr>pin_reads := 4\<rparr>)) ! k = 1)"
proof -
  let ?w1 = "start_signal (snd (millis sensor_world))"
  let ?w2 = "?w1\<lparr>pin_reads := 2\<rparr>"
  let ?w3 = "?w1\<lparr>pin_reads := 4\<rparr>"
  have mc: "1 \<le> unat (maxcycles fresh_dht)" by (simp add: fresh_dht_def)
  have "pin_seq ?w1 = square_wave" "pin_reads ?w1 mod 4 = 0"
    by (simp_all add: start_signal_events millis_def sensor_world_def)
  from square_wave_low [OF this mc]
  have p: "expectPulse fresh_dht LOW ?w1 = (1, ?w2)"
    by (simp add: start_signal_events millis_def sensor_world_def)
  have "pin_seq ?w2 = square_wave" "pin_reads ?w2 mod 4 = 2"
    by (simp_all add: start_signal_events millis_def sensor_world_def)
  from square_wave_high [OF this mc]
  have q: "expectPulse fresh_dht HIGH ?w2 = (1, ?w3)" by simp
  have "pin_seq ?w3 = square_wave" "pin_reads ?w3 mod 4 = 0"
    by (simp_all add: start_signal_events millis_def sensor_world_def)
  from square_wave_capture [OF this mc] p q show ?thesis by simp
qed

text \<open>
  C1. When all eighty samples are non-zero the decode inside \<open>_read\<close> returns true, and
  sets \<open>_lastresult\<close> to true, exactly when the frame it has decoded satisfies the
  checksum invariant; otherwise it returns false with \<open>_lastresult\<close> false. Every
  five-byte frame arises this way, from the samples \<open>pulses_of_frame\<close> gives for it. The
  same holds of a whole call of \<open>_read\<close> that takes the hardware path, sees both start
  pulses and captures eighty non-zero samples.
\<close>

theorem checksum_decides:
  "(length cycles = 80 \<and> (\<forall>k<80. cycles ! k \<noteq> 0) \<and> length (data s) = 5 \<and>
    decode_and_check cycles s = (ok, s') \<longrightarrow>
      (ok \<longleftrightarrow> frame_valid (data s')) \<and> lastresult s' = ok \<and> length (data s') = 5) \<and>
   (length f = 5 \<and> length (data s) = 5 \<longrightarrow>
      decode_and_check (pulses_of_frame f) s =
        (frame_valid f, s\<lparr>data := f, lastresult := frame_valid f\<rparr>)) \<and>
   (\<not> rate_limited s (millis_seq w (millis_calls w)) \<and>
    expectPulse s LOW (start_signal (snd (millis w))) = (p, w2) \<and> p \<noteq> 0 \<and>
    expectPulse s HIGH w2 = (q, w3) \<and> q \<noteq> 0 \<and>
    capture s w3 = (cycles', w4) \<and> (\<forall>k<80. cycles' ! k \<noteq> 0) \<and>
    priv_read s w = (r, s'', w'') \<longrightarrow>
      (r \<longleftrightarrow> frame_valid (data s'')) \<and> lastresult s'' = r)"
proof (intro conjI impI)
  assume h: "length cycles = 80 \<and> (\<forall>k<80. cycles ! k \<noteq> 0) \<and> length (data s) = 5 \<and>
    decode_and_check cycles s = (ok, s')"
  with decode_and_check_full [of s cycles]
  show "ok \<longleftrightarrow> frame_valid (data s')" "lastresult s' = ok" "length (data s') = 5"
    by auto
next
  assume h: "length f = 5 \<and> length (data s) = 5"
  then have "decode_loop 0 (pulses_of_frame f) (data s) = (True, f)"
    by (simp add: decode_pulses_of_frame)
  then show "decode_and_check (pulses_of_frame f) s =
        (frame_valid f, s\<lparr>data := f, lastresult := frame_valid f\<rparr>)"
    by (simp add: decode_and_check_def checksum_ok_iff_frame_valid)
next
  assume h: "\<not> rate_limited s (millis_seq w (millis_calls w)) \<and>
    expectPulse s LOW (start_signal (snd (millis w))) = (p, w2) \<and> p \<noteq> 0 \<and>
    expectPulse s HIGH w2 = (q, w3) \<and> q \<noteq> 0 \<and>
    capture s w3 = (cycles', w4) \<and> (\<forall>k<80. cycles' ! k \<noteq> 0) \<and>
    priv_read s w = (r, s'', w'')"
  let ?s2 = "s\<lparr>lastreadtime := millis_seq w (millis_calls w), data := [0, 0, 0, 0, 0]\<rparr>"
  have mc: "maxcycles ?s2 = maxcycles s" by simp
  from h have nr: "\<not> rate_limited s (millis_seq w (millis_calls w))" and nz: "p \<noteq> 0" "q \<noteq> 0"
    by simp_all
  from h have p: "expectPulse ?s2 LOW (start_signal (w\<lparr>millis_calls := Suc (millis_calls w)\<rparr>)) = (p, w2)"
    unfolding expectPulse_cong [OF mc] by (simp add: millis_def)
  from h have q: "expectPulse ?s2 HIGH w2 = (q, w3)"
    unfolding expectPulse_cong [OF mc] by simp
  from h have c: "capture ?s2 w3 = (cycles', w4)"
    unfolding capture_cong [OF mc] by simp
  have "priv_read s w =
      (fst (decode_and_check cycles' ?s2), snd (decode_and_check cycles' ?s2),
       emit InterruptLockRelease w4)"
    using nr nz by (simp add: priv_read_def millis_def Let_def p q c split_beta)
  moreover from h decode_and_check_full [of ?s2 cycles'] obtain d where
    "decode_and_check cycles' ?s2 = (frame_valid d, ?s2\<lparr>data := d, lastresult := frame_valid d\<rparr>)"
    by auto
  ultimately have "r = frame_valid d" "s'' = ?s2\<lparr>data := d, lastresult := frame_valid d\<rparr>"
    using h by simp_all
  then show "r \<longleftrightarrow> frame_valid (data s'')" "lastresult s'' = r" by simp_all
qed

theorem checksum_decides_witness:
  "decode_and_check (pulses_of_frame [40, 0, 25, 0, 65]) fresh_dht =
     (True, fresh_dht\<lparr>data := [40, 0, 25, 0, 65], lastresult := True\<rparr>) \<and>
   decode_and_check (pulses_of_frame [40, 0, 25, 0, 66]) fresh_dht =
     (False, fresh_dht\<lparr>data := [40, 0, 25, 0, 66], lastresult := False\<rparr>) \<and>
   (fst (decode_and_check (pulses_of_frame [1, 2, 3, 4, 5]) fresh_dht) \<longleftrightarrow>
      frame_valid (data (snd (decode_and_check (pulses_of_frame [1, 2, 3, 4, 5]) fresh_dht)))) \<and>
   (fst (priv_read fresh_dht sensor_world) \<longleftrightarrow>
      frame_valid (data (fst (snd (priv_read fresh_dht sensor_world)))))"
proof -
  let ?w1 = "start_signal (snd (millis sensor_world))"
  let ?c = "fst (capture fresh_dht (?w1\<lparr>pin_reads := 4\<rparr>))"
  let ?p = "pulses_of_frame [1, 2, 3, 4, 5]"
  note T = checksum_decides [where s = fresh_dht and w = sensor_world and p = 1 and q = 1
      and ?w2.0 = "?w1\<lparr>pin_reads := 2\<rparr>" and ?w3.0 = "?w1\<lparr>pin_reads := 4\<rparr>"
      and ?w4.0 = "?w1\<lparr>pin_reads := 164\<rparr>" and cycles' = ?c
      and r = "fst (priv_read fresh_dht sensor_world)"
      and s'' = "fst (snd (priv_read fresh_dht sensor_world))"
      and w'' = "snd (snd (priv_read fresh_dht sensor_world))"
      and cycles = ?p and ok = "fst (decode_and_check ?p fresh_dht)"
      and s' = "snd (decode_and_check ?p fresh_dht)"]
  have len: "length (data fresh_dht) = 5" by (simp add: fresh_dht_def)
  have v: "frame_valid [40, 0, 25, 0, 65]" "\<not> frame_valid [40, 0, 25, 0, 66]"
    by (simp_all add: frame_valid_def)
  have a: "decode_and_check (pulses_of_frame [40, 0, 25, 0, 65]) fresh_dht =
     (True, fresh_dht\<lparr>data := [40, 0, 25, 0, 65], lastresult := True\<rparr>)"
    using T [where f = "[40, 0, 25, 0, 65]"] len v by simp
  have b: "decode_and_check (pulses_of_frame [40, 0, 25, 0, 66]) fresh_dht =
     (False, fresh_dht\<lparr>data := [40, 0, 25, 0, 66], lastresult := False\<rparr>)"
    using T [where f = "[40, 0, 25, 0, 66]"] len v by simp
  have "length ?p = 80" "\<forall>k<80. ?p ! k \<noteq> 0"
    using pulses_of_frame_nonzero [of "[1, 2, 3, 4, 5]"] by (simp_all add: pulses_of_frame_def)
  with T len have c: "fst (decode_and_check ?p fresh_dht) \<longleftrightarrow>
      frame_valid (data (snd (decode_and_check ?p fresh_dht)))"
    by simp
  have nr: "\<not> rate_limited fresh_dht (millis_seq sensor_world (millis_calls sensor_world))"
    by (simp add: rate_limited_def fresh_dht_def sensor_world_def)
  have "\<forall>k<80. ?c ! k \<noteq> 0" using sensor_world_pulses by simp
  with T nr sensor_world_pulses
  have d: "fst (priv_read fresh_dht sensor_world) \<longleftrightarrow>
      frame_valid (data (fst (snd (priv_read fresh_dht sensor_world))))"
    by (simp add: prod_eq_iff)
  from a b c d show ?thesis by blast
qed

section \<open>A run that fails\<close>

lemma priv_read_unfold:
  assumes nr: "\<not> rate_limited s (millis_seq w (millis_calls w))"
    and p: "expectPulse s LOW (start_signal (snd (millis w))) = (p, w2)"
    and q: "expectPulse s HIGH w2 = (q, w3)"
    and c: "capture s w3 = (cycles, w4)"
  shows "priv_read s w =
     (if p = 0 then
        (False, s\<lparr>data := [0, 0, 0, 0, 0], lastreadtime := millis_seq w (millis_calls w),
                   lastresult := False\<rparr>, emit InterruptLockRelease w2)
      else if q = 0 then
        (False, s\<lparr>data := [0, 0, 0, 0, 0], lastreadtime := millis_seq w (millis_calls w),
                   lastresult := False\<rparr>, emit InterruptLockRelease w3)
      else
        (fst (decode_and_check cycles
               (s\<lparr>lastreadtime := millis_seq w (millis_calls w), data := [0, 0, 0, 0, 0]\<rparr>)),
         s\<lparr>data := snd (decode_loop 0 cycles [0, 0, 0, 0, 0]),
           lastreadtime := millis_seq w (millis_calls w),
           lastresult := fst (decode_and_check cycles
               (s\<lparr>lastreadtime := millis_seq w (millis_calls w), data := [0, 0, 0, 0, 0]\<rparr>))\<rparr>,
         emit InterruptLockRelease w4))"
proof -
  let ?s2 = "s\<lparr>lastreadtime := millis_seq w (millis_calls w), data := [0, 0, 0, 0, 0]\<rparr>"
  have mc: "maxcycles ?s2 = maxcycles s" by simp
  have p': "expectPulse ?s2 LOW (start_signal (w\<lparr>millis_calls := Suc (millis_calls w)\<rparr>)) = (p, w2)"
    using p unfolding expectPulse_cong [OF mc] by (simp add: millis_def)
  have q': "expectPulse ?s2 HIGH w2 = (q, w3)"
    using q unfolding expectPulse_cong [OF mc] by simp
  have c': "capture ?s2 w3 = (cycles, w4)"
    using c unfolding capture_cong [OF mc] by simp
  have d: "snd (decode_and_check cycles ?s2) =
      ?s2\<lparr>data := snd (decode_loop 0 cycles [0, 0, 0, 0, 0]),
          lastresult := fst (decode_and_check cycles ?s2)\<rparr>"
    by (simp add: decode_and_check_def split_beta)
  show ?thesis
    using nr by (simp add: priv_read_def millis_def Let_def p' q' c' split_beta d)
qed

subsection \<open>A frame cut short by a timeout\<close>

lemma decode_loop_stop:
  "i < 40 \<Longrightarrow> cycles ! (2 * i) = 0 \<or> cycles ! (2 * i + 1) = 0 \<Longrightarrow>
     decode_loop i cycles d = (False, d)"
  by (subst decode_loop.simps) (simp add: Let_def)

lemma shifts_done_same_byte:
  "i div 8 = b \<Longrightarrow> i < j \<Longrightarrow>
     shifts_done b i j = Suc (shifts_done b (i + 1) j) \<and>
     min (8 * b + 8) j - 1 - shifts_done b (i + 1) j = i"
  unfolding shifts_done_def by (auto simp add: min_def max_def)

lemma shifts_done_other_byte:
  "i div 8 \<noteq> b \<Longrightarrow> shifts_done b (i + 1) j = shifts_done b i j"
  unfolding shifts_done_def by (auto simp add: min_def max_def)

lemma decode_loop_stopped_bits:
  assumes "m = j - i" "i \<le> j" "j < 40" "length d = 5" "\<forall>k<2 * j. cycles ! k \<noteq> 0"
    "cycles ! (2 * j) = 0 \<or> cycles ! (2 * j + 1) = 0"
  shows "\<exists>d'. decode_loop i cycles d = (False, d') \<and> length d' = 5 \<and>
           (\<forall>b<5. \<forall>n<8. bit (d' ! b) n =
              (if n < shifts_done b i j then pulse_bit cycles (min (8 * b + 8) j - 1 - n)
               else bit (d ! b) (n - shifts_done b i j)))"
  using assms
proof (induction m arbitrary: i d)
  case 0
  then have i: "i = j" by simp
  have "\<forall>b<5. shifts_done b j j = 0" by (simp add: shifts_done_def)
  then show ?case using "0.prems"(3,4,6) by (simp add: i decode_loop_stop)
next
  case (Suc m)
  let ?b0 = "i div 8"
  let ?d2 = "d[?b0 := push_bit 1 (d ! ?b0) OR of_bool (pulse_bit cycles i)]"
  from Suc.prems have ij: "i < j" by simp
  with Suc.prems(3) have i: "i < 40" by simp
  then have b0: "?b0 < 5" by simp
  from ij have "2 * i < 2 * j" "2 * i + 1 < 2 * j" by simp_all
  with Suc.prems(5) have nz: "cycles ! (2 * i) \<noteq> 0" "cycles ! (2 * i + 1) \<noteq> 0" by blast+
  have step: "decode_loop i cycles d = decode_loop (i + 1) cycles ?d2"
    using i nz Suc.prems(4) b0 by (intro decode_loop_step) simp_all
  have "m = j - (i + 1)" "i + 1 \<le> j" "length ?d2 = 5"
    using Suc.prems ij by simp_all
  from Suc.IH [OF this(1,2) Suc.prems(3) this(3) Suc.prems(5,6)] obtain d' where
    run: "decode_loop (i + 1) cycles ?d2 = (False, d')" and len: "length d' = 5" and
    bits: "\<And>b n. b < 5 \<Longrightarrow> n < 8 \<Longrightarrow> bit (d' ! b) n =
              (if n < shifts_done b (i + 1) j then pulse_bit cycles (min (8 * b + 8) j - 1 - n)
               else bit (?d2 ! b) (n - shifts_done b (i + 1) j))"
    by blast
  have "bit (d' ! b) n =
          (if n < shifts_done b i j then pulse_bit cycles (min (8 * b + 8) j - 1 - n)
           else bit (d ! b) (n - shifts_done b i j))" if b: "b < 5" and n: "n < 8" for b n
  proof (cases "?b0 = b")
    case False
    then have "?d2 ! b = d ! b" by simp
    then show ?thesis
      using bits [OF b n] shifts_done_other_byte [OF False] by simp
  next
    case True
    from shifts_done_same_byte [OF True ij]
    have r: "shifts_done b i j = Suc (shifts_done b (i + 1) j)"
      and k: "min (8 * b + 8) j - 1 - shifts_done b (i + 1) j = i" by simp_all
    have upd: "?d2 ! b = push_bit 1 (d ! b) OR of_bool (pulse_bit cycles i)"
      using True b Suc.prems(4) by simp
    show ?thesis
    proof (cases "n < shifts_done b (i + 1) j")
      case True
      then show ?thesis using bits [OF b n] r by simp
    next
      case False
      then have "bit (d' ! b) n = bit (?d2 ! b) (n - shifts_done b (i + 1) j)"
        using bits [OF b n] by simp
      also have "\<dots> = (if n - shifts_done b (i + 1) j = 0 then pulse_bit cycles i
                       else bit (d ! b) (n - shifts_done b (i + 1) j - 1))"
        unfolding upd using n by (intro bit_shift_in) simp
      finally have eq: "bit (d' ! b) n =
          (if n - shifts_done b (i + 1) j = 0 then pulse_bit cycles i
           else bit (d ! b) (n - shifts_done b (i + 1) j - 1))" .
      show ?thesis
      proof (cases "n = shifts_done b (i + 1) j")
        case True
        with k have "min (8 * b + 8) j - 1 - n = i" by simp
        with eq True r show ?thesis by simp
      next
        case neq: False
        with False have "shifts_done b i j \<le> n" "n - shifts_done b (i + 1) j \<noteq> 0"
          and "n - shifts_done b (i + 1) j - 1 = n - shifts_done b i j"
          using r by simp_all
        with eq show ?thesis by simp
      qed
    qed
  qed
  then show ?case using step run len by simp
qed

lemma decode_loop_stopped:
  assumes "j < 40" "\<forall>k<2 * j. cycles ! k \<noteq> 0" "cycles ! (2 * j) = 0 \<or> cycles ! (2 * j + 1) = 0"
    "b < 5" "n < 8"
  shows "fst (decode_loop 0 cycles [0, 0, 0, 0, 0]) = False"
    and "bit (snd (decode_loop 0 cycles [0, 0, 0, 0, 0]) ! b) n \<longleftrightarrow>
           n < j - 8 * b \<and> pulse_bit cycles (min (8 * b + 8) j - 1 - n)"
proof -
  have len: "length [0, 0, 0, 0, 0 :: uint8] = 5" by simp
  have z: "[0, 0, 0, 0, 0 :: uint8] ! b = 0" using assms(4) by (simp add: nth_Cons')
  from decode_loop_stopped_bits [OF refl le0 assms(1) len assms(2,3)] obtain d' where
    run: "decode_loop 0 cycles [0, 0, 0, 0, 0] = (False, d')" and
    bits: "\<And>b n. b < 5 \<Longrightarrow> n < 8 \<Longrightarrow> bit (d' ! b) n =
              (if n < shifts_done b 0 j then pulse_bit cycles (min (8 * b + 8) j - 1 - n)
               else bit ([0, 0, 0, 0, 0 :: uint8] ! b) (n - shifts_done b 0 j))"
    by blast
  show "fst (decode_loop 0 cycles [0, 0, 0, 0, 0]) = False" by (simp add: run)
  have "n < shifts_done b 0 j \<longleftrightarrow> n < j - 8 * b"
    using assms(5) by (auto simp add: shifts_done_def min_def)
  with bits [OF assms(4,5)] z
  show "bit (snd (decode_loop 0 cycles [0, 0, 0, 0, 0]) ! b) n \<longleftrightarrow>
           n < j - 8 * b \<and> pulse_bit cycles (min (8 * b + 8) j - 1 - n)"
    by (simp add: run)
qed

subsection \<open>A complete frame that fails the checksum\<close>

lemma long_high_low:
  assumes "pin_seq w = long_high_wave" "pin_reads w mod 5 = 0" "2 \<le> unat (maxcycles s)"
  shows "expectPulse s LOW w = (1, w\<lparr>pin_reads := pin_reads w + 2\<rparr>)"
proof -
  have a: "\<forall>j<1. pin_seq w (pin_reads w + j) = LOW"
    using assms(1,2) by (simp add: long_high_wave_def)
  have b: "pin_seq w (pin_reads w + 1) \<noteq> LOW"
    using assms(1,2) by (simp add: long_high_wave_def mod_Suc)
  have c: "1 \<le> unat (maxcycles s)" using assms(3) by simp
  from expectPulse_count [OF a b c] show ?thesis by simp
qed

lemma long_high_high:
  assumes "pin_seq w = long_high_wave" "pin_reads w mod 5 = 2" "2 \<le> unat (maxcycles s)"
  shows "expectPulse s HIGH w = (2, w\<lparr>pin_reads := pin_reads w + 3\<rparr>)"
proof -
  have "pin_seq w (pin_reads w + j) = HIGH" if "j < 2" for j
  proof -
    from that consider "j = 0" | "j = 1" by linarith
    then show ?thesis using assms(1,2) by cases (simp_all add: long_high_wave_def mod_Suc)
  qed
  then have a: "\<forall>j<2. pin_seq w (pin_reads w + j) = HIGH" by blast
  have b: "pin_seq w (pin_reads w + 2) \<noteq> HIGH"
    using assms(1,2) by (simp add: long_high_wave_def mod_Suc)
  from expectPulse_count [OF a b assms(3)] show ?thesis by simp
qed

lemma long_high_capture_loop:
  assumes "m = 80 - i" "pin_seq w = long_high_wave" "pin_reads w mod 5 = 0"
    "2 \<le> unat (maxcycles s)" "length cycles = 80"
    "\<forall>k<i. cycles ! k = (if even k then 1 else 2)" "even i"
  shows "(\<forall>k<80. fst (capture_loop s i cycles w) ! k = (if even k then 1 else 2)) \<and>
         snd (capture_loop s i cycles w) = w\<lparr>pin_reads := pin_reads w + 5 * ((80 - i) div 2)\<rparr>"
  using assms
proof (induction m arbitrary: i w cycles rule: less_induct)
  case (less m)
  show ?case
  proof (cases "i < 80")
    case False
    then have "capture_loop s i cycles w = (cycles, w)" by (subst capture_loop.simps) simp
    with False less.prems(6) show ?thesis by simp
  next
    case True
    let ?w1 = "w\<lparr>pin_reads := pin_reads w + 2\<rparr>"
    let ?w2 = "w\<lparr>pin_reads := pin_reads w + 5\<rparr>"
    let ?c = "cycles[i := 1, i + 1 := 2]"
    have lo: "expectPulse s LOW w = (1, ?w1)"
      using less.prems(2,3,4) by (rule long_high_low)
    have "pin_seq ?w1 = long_high_wave" "pin_reads ?w1 mod 5 = 2"
      using less.prems(2,3) by (simp_all add: mod_Suc)
    from long_high_high [OF this less.prems(4)]
    have hi: "expectPulse s HIGH ?w1 = (2, ?w2)" by simp
    have step: "capture_loop s i cycles w = capture_loop s (i + 2) ?c ?w2"
      using True lo hi by (subst capture_loop.simps) simp
    have "i \<noteq> 79" using less.prems(7) by auto
    then have i: "i + 2 \<le> 80" using True by simp
    have nz: "\<forall>k<i + 2. ?c ! k = (if even k then 1 else 2)"
    proof (intro allI impI)
      fix k assume "k < i + 2"
      then consider "k < i" | "k = i" | "k = i + 1" by linarith
      then show "?c ! k = (if even k then 1 else 2)"
        using less.prems(5,6,7) i by cases (simp_all add: nth_list_update)
    qed
    have m: "80 - (i + 2) < m" using True less.prems(1) by simp
    have w2: "pin_seq ?w2 = long_high_wave" "pin_reads ?w2 mod 5 = 0"
      using less.prems(2,3) by (simp_all)
    have c: "length ?c = 80" "even (i + 2)"
      using less.prems(5,7) by simp_all
    have "(80 - i) div 2 = Suc ((80 - (i + 2)) div 2)" using i by simp
    then have "pin_reads ?w2 + 5 * ((80 - (i + 2)) div 2) = pin_reads w + 5 * ((80 - i) div 2)"
      by simp
    with less.IH [OF m refl w2 less.prems(4) c(1) nz c(2)]
    show ?thesis unfolding step by simp
  qed
qed

lemma long_high_capture:
  assumes "pin_seq w = long_high_wave" "pin_reads w mod 5 = 0" "2 \<le> unat (maxcycles s)"
  shows "(\<forall>k<80. fst (capture s w) ! k = (if even k then 1 else 2)) \<and>
         snd (capture s w) = w\<lparr>pin_reads := pin_reads w + 200\<rparr>"
  using long_high_capture_loop [OF refl assms, of "replicate 80 0" 0]
  by (simp add: capture_def)

lemma decode_all_ones:
  assumes "length d = 5" "\<forall>k<80. cycles ! k = (if even k then 1 else 2)"
  shows "decode_loop 0 cycles d = (True, [255, 255, 255, 255, 255])"
proof -
  from assms(2) have nz: "\<forall>k<80. cycles ! k \<noteq> 0" by simp
  from decode_loop_full [OF assms(1) nz] obtain d' where
    run: "decode_loop 0 cycles d = (True, d')" and len: "length d' = 5" and
    bits: "\<And>b n. b < 5 \<Longrightarrow> n < 8 \<Longrightarrow> bit (d' ! b) n = pulse_bit cycles (8 * b + 7 - n)"
    by blast
  have "d' ! b = [255, 255, 255, 255, 255] ! b" if b: "b < 5" for b
  proof -
    have "d' ! b = - 1"
    proof (rule bit_word_eqI)
      fix n assume "n < LENGTH(8)"
      then have n: "n < 8" by simp
      then have "2 * (8 * b + 7 - n) < 80" "2 * (8 * b + 7 - n) + 1 < 80" using b by simp_all
      with assms(2) have "pulse_bit cycles (8 * b + 7 - n) = True"
        by (simp add: pulse_bit_def decode_bit_def)
      with bits [OF b n] n show "bit (d' ! b) n = bit (- 1 :: uint8) n" by simp
    qed
    moreover have "[255, 255, 255, 255, 255 :: uint8] ! b = - 1"
      using b by (simp add: nth_Cons')
    ultimately show ?thesis by simp
  qed
  then have "d' = [255, 255, 255, 255, 255]" using len by (intro nth_equalityI) simp_all
  with run show ?thesis by simp
qed

lemma noisy_world_pulses:
  "expectPulse fresh_dht LOW (start_signal (snd (millis noisy_world)))
     = (1, start_signal (snd (millis noisy_world))\<lparr>pin_reads := 2\<rparr>) \<and>
   expectPulse fresh_dht HIGH (start_signal (snd (millis noisy_world))\<lparr>pin_reads := 2\<rparr>)
     = (2, start_signal (snd (millis noisy_world))\<lparr>pin_reads := 5\<rparr>) \<and>
   snd (capture fresh_dht (start_signal (snd (millis noisy_world))\<lparr>pin_reads := 5\<rparr>))
     = start_signal (snd (millis noisy_world))\<lparr>pin_reads := 205\<rparr> \<and>
   (\<forall>k<80. fst (capture fresh_dht (start_signal (snd (millis noisy_world))\<lparr>pin_reads := 5\<rparr>)) ! k
      = (if even k then 1 else 2))"
proof -
  let ?w1 = "start_signal (snd (millis noisy_world))"
  let ?w2 = "?w1\<lparr>pin_reads := 2\<rparr>"
  let ?w3 = "?w1\<lparr>pin_reads := 5\<rparr>"
  have mc: "2 \<le> unat (maxcycles fresh_dht)" by (simp add: fresh_dht_def)
  have "pin_seq ?w1 = long_high_wave" "pin_reads ?w1 mod 5 = 0"
    by (simp_all add: start_signal_events millis_def noisy_world_def)
  from long_high_low [OF this mc]
  have p: "expectPulse fresh_dht LOW ?w1 = (1, ?w2)"
    by (simp add: start_signal_events millis_def noisy_world_def)
  have "pin_seq ?w2 = long_high_wave" "pin_reads ?w2 mod 5 = 2"
    by (simp_all add: start_signal_events millis_def noisy_world_def)
  from long_high_high [OF this mc]
  have q: "expectPulse fresh_dht HIGH ?w2 = (2, ?w3)" by simp
  have "pin_seq ?w3 = long_high_wave" "pin_reads ?w3 mod 5 = 0"
    by (simp_all add: start_signal_events millis_def noisy_world_def)
  from long_high_capture [OF this mc] p q show ?thesis by simp
qed

lemma priv_read_noisy_world:
  "priv_read fresh_dht noisy_world =
     (False,
      fresh_dht\<lparr>data := [255, 255, 255, 255, 255], lastreadtime := 5000, lastresult := False\<rparr>,
      noisy_world\<lparr>millis_calls := 1, pin_reads := 205,
        events := start_events @ [InterruptLockRelease]\<rparr>)"
proof -
  let ?w1 = "start_signal (snd (millis noisy_world))"
  let ?c = "fst (capture fresh_dht (?w1\<lparr>pin_reads := 5\<rparr>))"
  let ?s2 = "fresh_dht\<lparr>lastreadtime := millis_seq noisy_world (millis_calls noisy_world),
     data := [0, 0, 0, 0, 0]\<rparr>"
  have nr: "\<not> rate_limited fresh_dht (millis_seq noisy_world (millis_calls noisy_world))"
    by (simp add: rate_limited_def fresh_dht_def noisy_world_def)
  from noisy_world_pulses have
    p: "expectPulse fresh_dht LOW ?w1 = (1, ?w1\<lparr>pin_reads := 2\<rparr>)" and
    q: "expectPulse fresh_dht HIGH (?w1\<lparr>pin_reads := 2\<rparr>) = (2, ?w1\<lparr>pin_reads := 5\<rparr>)" and
    c: "capture fresh_dht (?w1\<lparr>pin_reads := 5\<rparr>) = (?c, ?w1\<lparr>pin_reads := 205\<rparr>)" and
    pat: "\<forall>k<80. ?c ! k = (if even k then 1 else 2)"
    by (simp_all add: prod_eq_iff)
  have run: "decode_loop 0 ?c [0, 0, 0, 0, 0] = (True, [255, 255, 255, 255, 255])"
    using pat by (intro decode_all_ones) simp_all
  have "\<not> frame_valid [255, 255, 255, 255, 255]" by (simp add: frame_valid_def)
  then have d: "fst (decode_and_check ?c ?s2) = False"
    using run by (simp add: decode_and_check_def checksum_ok_iff_frame_valid)
  show ?thesis
    using priv_read_unfold [OF nr p q c] d run
    by (simp add: start_signal_events emit_def millis_def noisy_world_def)
qed

subsection \<open>A sensor that falls silent after three bits\<close>

lemma cut_wave_low:
  assumes "pin_seq w = cut_wave" "pin_reads w mod 5 = 0" "pin_reads w < 20"
    "2 \<le> unat (maxcycles s)"
  shows "expectPulse s LOW w = (1, w\<lparr>pin_reads := pin_reads w + 2\<rparr>)"
proof -
  have a: "\<forall>j<1. pin_seq w (pin_reads w + j) = LOW"
    using assms(1,2,3) by (simp add: cut_wave_def long_high_wave_def)
  have b: "pin_seq w (pin_reads w + 1) \<noteq> LOW"
    using assms(1,2) by (simp add: cut_wave_def long_high_wave_def mod_Suc)
  have c: "1 \<le> unat (maxcycles s)" using assms(4) by simp
  from expectPulse_count [OF a b c] show ?thesis by simp
qed

lemma cut_wave_high:
  assumes "pin_seq w = cut_wave" "pin_reads w mod 5 = 2" "pin_reads w + 2 < 20"
    "2 \<le> unat (maxcycles s)"
  shows "expectPulse s HIGH w = (2, w\<lparr>pin_reads := pin_reads w + 3\<rparr>)"
proof -
  have "pin_seq w (pin_reads w + j) = HIGH" if "j < 2" for j
  proof -
    from that consider "j = 0" | "j = 1" by linarith
    then show ?thesis
      using assms(1,2) by cases (simp_all add: cut_wave_def long_high_wave_def mod_Suc)
  qed
  then have a: "\<forall>j<2. pin_seq w (pin_reads w + j) = HIGH" by blast
  have b: "pin_seq w (pin_reads w + 2) \<noteq> HIGH"
    using assms(1,2,3) by (simp add: cut_wave_def long_high_wave_def mod_Suc)
  from expectPulse_count [OF a b assms(4)] show ?thesis by simp
qed

lemma cut_wave_end:
  assumes "pin_seq w = cut_wave" "20 \<le> pin_reads w"
  shows "expectPulse s LOW w = (0, w\<lparr>pin_reads := pin_reads w + 1\<rparr>)"
  using assms by (simp add: expectPulse_def expectPulse_loop_leave cut_wave_def)

lemma capture_loop_step:
  assumes "i < 80" "i1 = i + 1" "i2 = i + 2"
    "expectPulse s LOW w = (lo, w1)" "expectPulse s HIGH w1 = (hi, w2)"
  shows "capture_loop s i cycles w = capture_loop s i2 (cycles[i := lo, i1 := hi]) w2"
  using assms by (subst capture_loop.simps) simp

lemma capture_loop_prefix:
  "k < i \<Longrightarrow> fst (capture_loop s i cycles w) ! k = cycles ! k"
proof (induction s i cycles w rule: capture_loop.induct)
  case (1 s i cycles w)
  show ?case
  proof (cases "i < 80")
    case False
    then show ?thesis by (subst capture_loop.simps) simp
  next
    case True
    obtain lo w1 where lo: "expectPulse s LOW w = (lo, w1)" by (cases "expectPulse s LOW w")
    obtain hi w2 where hi: "expectPulse s HIGH w1 = (hi, w2)" by (cases "expectPulse s HIGH w1")
    have "k < i + 2" using "1.prems" by simp
    from "1.IH" [OF True lo [symmetric] hi [symmetric] this]
    have "fst (capture_loop s (i + 2) (cycles[i := lo, i + 1 := hi]) w2) ! k
        = (cycles[i := lo, i + 1 := hi]) ! k" .
    also have "\<dots> = cycles ! k" using "1.prems" by simp
    finally show ?thesis unfolding capture_loop_step [OF True refl refl lo hi] .
  qed
qed

lemma cut_world_pulses:
  "expectPulse fresh_dht LOW (start_signal (snd (millis cut_world)))
     = (1, start_signal (snd (millis cut_world))\<lparr>pin_reads := 2\<rparr>) \<and>
   expectPulse fresh_dht HIGH (start_signal (snd (millis cut_world))\<lparr>pin_reads := 2\<rparr>)
     = (2, start_signal (snd (millis cut_world))\<lparr>pin_reads := 5\<rparr>) \<and>
   (\<forall>k<6. fst (capture fresh_dht (start_signal (snd (millis cut_world))\<lparr>pin_reads := 5\<rparr>)) ! k
      = (if even k then 1 else 2)) \<and>
   fst (capture fresh_dht (start_signal (snd (millis cut_world))\<lparr>pin_reads := 5\<rparr>)) ! 6 = 0"
proof -
  let ?w1 = "start_signal (snd (millis cut_world))"
  let ?c0 = "replicate 80 (0 :: uint32)"
  let ?c1 = "?c0[0 := 1, 1 := 2]"
  let ?c2 = "?c1[2 := 1, 3 := 2]"
  let ?c3 = "?c2[4 := 1, 5 := 2]"
  have mc: "2 \<le> unat (maxcycles fresh_dht)" by (simp add: fresh_dht_def)
  have w: "pin_seq (?w1\<lparr>pin_reads := n\<rparr>) = cut_wave" "pin_reads (?w1\<lparr>pin_reads := n\<rparr>) = n"
    "pin_seq ?w1 = cut_wave" "pin_reads ?w1 = 0" for n
    by (simp_all add: start_signal_events millis_def cut_world_def)
  have lo: "expectPulse fresh_dht LOW (?w1\<lparr>pin_reads := n\<rparr>) = (1, ?w1\<lparr>pin_reads := n + 2\<rparr>)"
    if "n mod 5 = 0" "n < 20" for n
    using cut_wave_low [of "?w1\<lparr>pin_reads := n\<rparr>" fresh_dht] that mc by (simp add: w)
  have hi: "expectPulse fresh_dht HIGH (?w1\<lparr>pin_reads := n\<rparr>) = (2, ?w1\<lparr>pin_reads := n + 3\<rparr>)"
    if "n mod 5 = 2" "n + 2 < 20" for n
    using cut_wave_high [of "?w1\<lparr>pin_reads := n\<rparr>" fresh_dht] that mc by (simp add: w)
  have p: "expectPulse fresh_dht LOW ?w1 = (1, ?w1\<lparr>pin_reads := 2\<rparr>)"
    using cut_wave_low [of ?w1 fresh_dht] mc by (simp add: w)
  have q: "expectPulse fresh_dht HIGH (?w1\<lparr>pin_reads := 2\<rparr>) = (2, ?w1\<lparr>pin_reads := 5\<rparr>)"
    using hi [of 2] by simp
  have l5: "expectPulse fresh_dht LOW (?w1\<lparr>pin_reads := 5\<rparr>) = (1, ?w1\<lparr>pin_reads := 7\<rparr>)"
    using lo [of 5] by simp
  have h7: "expectPulse fresh_dht HIGH (?w1\<lparr>pin_reads := 7\<rparr>) = (2, ?w1\<lparr>pin_reads := 10\<rparr>)"
    using hi [of 7] by simp
  have l10: "expectPulse fresh_dht LOW (?w1\<lparr>pin_reads := 10\<rparr>) = (1, ?w1\<lparr>pin_reads := 12\<rparr>)"
    using lo [of 10] by simp
  have h12: "expectPulse fresh_dht HIGH (?w1\<lparr>pin_reads := 12\<rparr>) = (2, ?w1\<lparr>pin_reads := 15\<rparr>)"
    using hi [of 12] by simp
  have l15: "expectPulse fresh_dht LOW (?w1\<lparr>pin_reads := 15\<rparr>) = (1, ?w1\<lparr>pin_reads := 17\<rparr>)"
    using lo [of 15] by simp
  have h17: "expectPulse fresh_dht HIGH (?w1\<lparr>pin_reads := 17\<rparr>) = (2, ?w1\<lparr>pin_reads := 20\<rparr>)"
    using hi [of 17] by simp
  have l20: "expectPulse fresh_dht LOW (?w1\<lparr>pin_reads := 20\<rparr>) = (0, ?w1\<lparr>pin_reads := 21\<rparr>)"
    using cut_wave_end [of "?w1\<lparr>pin_reads := 20\<rparr>" fresh_dht] by (simp add: w)
  obtain h w' where h21: "expectPulse fresh_dht HIGH (?w1\<lparr>pin_reads := 21\<rparr>) = (h, w')"
    by (cases "expectPulse fresh_dht HIGH (?w1\<lparr>pin_reads := 21\<rparr>)")
  have s1: "capture_loop fresh_dht 0 ?c0 (?w1\<lparr>pin_reads := 5\<rparr>)
      = capture_loop fresh_dht 2 ?c1 (?w1\<lparr>pin_reads := 10\<rparr>)"
    by (rule capture_loop_step [OF _ _ _ l5 h7]) simp_all
  have s2: "capture_loop fresh_dht 2 ?c1 (?w1\<lparr>pin_reads := 10\<rparr>)
      = capture_loop fresh_dht 4 ?c2 (?w1\<lparr>pin_reads := 15\<rparr>)"
    by (rule capture_loop_step [OF _ _ _ l10 h12]) simp_all
  have s3: "capture_loop fresh_dht 4 ?c2 (?w1\<lparr>pin_reads := 15\<rparr>)
      = capture_loop fresh_dht 6 ?c3 (?w1\<lparr>pin_reads := 20\<rparr>)"
    by (rule capture_loop_step [OF _ _ _ l15 h17]) simp_all
  have s4: "capture_loop fresh_dht 6 ?c3 (?w1\<lparr>pin_reads := 20\<rparr>)
      = capture_loop fresh_dht 8 (?c3[6 := 0, 7 := h]) w'"
    by (rule capture_loop_step [OF _ _ _ l20 h21]) simp_all
  have c: "capture fresh_dht (?w1\<lparr>pin_reads := 5\<rparr>)
      = capture_loop fresh_dht 8 (?c3[6 := 0, 7 := h]) w'"
    unfolding capture_def s1 s2 s3 s4 ..
  have pre: "fst (capture fresh_dht (?w1\<lparr>pin_reads := 5\<rparr>)) ! k = (?c3[6 := 0, 7 := h]) ! k"
    if "k < 8" for k
    unfolding c using that by (rule capture_loop_prefix)
  have "(?c3[6 := 0, 7 := h]) ! k = (if even k then 1 else 2)" if "k < 6" for k
  proof -
    from that consider "k = 0" | "k = 1" | "k = 2" | "k = 3" | "k = 4" | "k = 5" by linarith
    then show ?thesis by cases simp_all
  qed
  then have a: "\<forall>k<6. fst (capture fresh_dht (?w1\<lparr>pin_reads := 5\<rparr>)) ! k
      = (if even k then 1 else 2)"
    using pre by simp
  have b: "fst (capture fresh_dht (?w1\<lparr>pin_reads := 5\<rparr>)) ! 6 = 0"
    using pre [of 6] by simp
  from p q a b show ?thesis by blast
qed

lemma priv_read_cut_world: "fst (priv_read fresh_dht cut_world) = False"
proof -
  let ?w1 = "start_signal (snd (millis cut_world))"
  let ?c = "fst (capture fresh_dht (?w1\<lparr>pin_reads := 5\<rparr>))"
  let ?s2 = "fresh_dht\<lparr>lastreadtime := millis_seq cut_world (millis_calls cut_world),
     data := [0, 0, 0, 0, 0]\<rparr>"
  have nr: "\<not> rate_limited fresh_dht (millis_seq cut_world (millis_calls cut_world))"
    by (simp add: rate_limited_def fresh_dht_def cut_world_def)
  from cut_world_pulses have
    p: "expectPulse fresh_dht LOW ?w1 = (1, ?w1\<lparr>pin_reads := 2\<rparr>)" and
    q: "expectPulse fresh_dht HIGH (?w1\<lparr>pin_reads := 2\<rparr>) = (2, ?w1\<lparr>pin_reads := 5\<rparr>)" and
    pat: "\<forall>k<6. ?c ! k = (if even k then 1 else 2)" and z: "?c ! 6 = 0"
    by blast+
  have c: "capture fresh_dht (?w1\<lparr>pin_reads := 5\<rparr>)
      = (?c, snd (capture fresh_dht (?w1\<lparr>pin_reads := 5\<rparr>)))" by simp
  from pat have nz: "\<forall>k<2 * 3. ?c ! k \<noteq> 0" by simp
  from z have z': "?c ! (2 * 3) = 0 \<or> ?c ! (2 * 3 + 1) = 0" by simp
  have "fst (decode_loop 0 ?c [0, 0, 0, 0, 0]) = False"
    by (rule decode_loop_stopped(1) [OF _ nz z', of 0 0]) simp_all
  then have "fst (decode_and_check ?c ?s2) = False"
    by (simp add: decode_and_check_def split_beta)
  with priv_read_unfold [OF nr p q c] show ?thesis by simp
qed

lemma bit_seven: "n < 8 \<Longrightarrow> bit (7 :: uint8) n \<longleftrightarrow> n < 3"
proof -
  assume n: "n < 8"
  have m: "(7 :: uint8) = mask 3" by (simp add: mask_eq_exp_minus_1)
  have "bit (mask 3 :: uint8) n \<longleftrightarrow> n < 3"
    using n by (simp only: bit_mask_iff possible_bit_word) simp
  then show ?thesis by (simp only: m)
qed

text \<open>
  C6 (as amended). A run of \<open>_read\<close> that takes the hardware path and fails sets
  \<open>_lastresult\<close> to false and \<open>_lastreadtime\<close> to the time of the attempt. The frame is
  not preserved: \<open>data\<close> is zeroed before the start signal (line 132) and the decode loop
  shifts the bits of this attempt into it. With \<open>p\<close> and \<open>q\<close> the counts of the two
  response pulses and \<open>cycles\<close> the eighty samples (\<open>expectPulse\<close> reads nothing of the
  object but \<open>_maxcycles\<close>), after the run \<open>data\<close> has five bytes and

  \<^item> is all zero when \<open>expectPulse\<close> returned 0 for a response pulse (\<open>p = 0\<close> or
    \<open>q = 0\<close>, which the code takes for a timeout), and is what the decode loop makes of
    five zero bytes otherwise;

  \<^item> when no sample is zero, holds all forty bits of this attempt, bit \<open>i\<close> in byte
    \<open>i / 8\<close> at position \<open>7 - i mod 8\<close>, and they fail the checksum;

  \<^item> when pair \<open>j\<close> is the first with a zero sample, holds the bits of the pairs before
    it and zeros elsewhere: byte \<open>b\<close> has received the bits of the pairs from \<open>8 * b\<close> up
    to \<open>min (8 * b + 8) j - 1\<close>, the last of them in its bit 0.

  The object after the run is the same whatever frame it held before.
\<close>

theorem failed_run_overwrites_frame:
  "\<not> rate_limited s (millis_seq w (millis_calls w)) \<and> priv_read s w = (False, s', w') \<and>
   expectPulse s LOW (start_signal (snd (millis w))) = (p, w2) \<and>
   expectPulse s HIGH w2 = (q, w3) \<and> capture s w3 = (cycles, w4) \<longrightarrow>
     lastresult s' = False \<and> lastreadtime s' = millis_seq w (millis_calls w) \<and>
     length (data s') = 5 \<and>
     data s' = (if p = 0 \<or> q = 0 then [0, 0, 0, 0, 0]
                else snd (decode_loop 0 cycles [0, 0, 0, 0, 0])) \<and>
     s' = s\<lparr>data := data s', lastreadtime := millis_seq w (millis_calls w),
             lastresult := False\<rparr> \<and>
     (\<forall>d. priv_read (s\<lparr>data := d\<rparr>) w = (False, s', w')) \<and>
     (p \<noteq> 0 \<and> q \<noteq> 0 \<and> (\<forall>k<80. cycles ! k \<noteq> 0) \<longrightarrow>
        \<not> frame_valid (data s') \<and>
        (\<forall>i<40. bit (data s' ! (i div 8)) (7 - i mod 8) = pulse_bit cycles i)) \<and>
     (p \<noteq> 0 \<and> q \<noteq> 0 \<and> j < 40 \<and> (\<forall>k<2 * j. cycles ! k \<noteq> 0) \<and>
      (cycles ! (2 * j) = 0 \<or> cycles ! (2 * j + 1) = 0) \<longrightarrow>
        (\<forall>b<5. \<forall>n<8. bit (data s' ! b) n \<longleftrightarrow>
           n < j - 8 * b \<and> pulse_bit cycles (min (8 * b + 8) j - 1 - n)))"
proof (intro impI)
  assume h: "\<not> rate_limited s (millis_seq w (millis_calls w)) \<and> priv_read s w = (False, s', w') \<and>
   expectPulse s LOW (start_signal (snd (millis w))) = (p, w2) \<and>
   expectPulse s HIGH w2 = (q, w3) \<and> capture s w3 = (cycles, w4)"
  let ?now = "millis_seq w (millis_calls w)"
  let ?s2 = "s\<lparr>lastreadtime := ?now, data := [0, 0, 0, 0, 0]\<rparr>"
  let ?d = "if p = 0 \<or> q = 0 then [0, 0, 0, 0, 0] else snd (decode_loop 0 cycles [0, 0, 0, 0, 0])"
  from h have nr: "\<not> rate_limited s ?now" and r: "priv_read s w = (False, s', w')"
    and p: "expectPulse s LOW (start_signal (snd (millis w))) = (p, w2)"
    and q: "expectPulse s HIGH w2 = (q, w3)" and c: "capture s w3 = (cycles, w4)"
    by simp_all
  note u = priv_read_unfold [OF nr p q c]
  have s': "s' = s\<lparr>data := ?d, lastreadtime := ?now, lastresult := False\<rparr>"
    using u r by (auto split: if_splits)
  have len: "length ?d = 5" by (simp add: decode_loop_length)
  have ok: "fst (decode_and_check cycles ?s2) = False" if "p \<noteq> 0" "q \<noteq> 0"
    using u r that by simp
  have indep: "priv_read (s\<lparr>data := d\<rparr>) w = priv_read s w" for d
    using nr by (simp add: priv_read_def rate_limited_def millis_def Let_def split_beta)
  have full: "\<not> frame_valid (data s') \<and>
        (\<forall>i<40. bit (data s' ! (i div 8)) (7 - i mod 8) = pulse_bit cycles i)"
    if nz: "p \<noteq> 0 \<and> q \<noteq> 0 \<and> (\<forall>k<80. cycles ! k \<noteq> 0)"
  proof -
    have len: "length (data ?s2) = 5" by simp
    from nz have all: "\<forall>k<80. cycles ! k \<noteq> 0" by simp
    from decode_and_check_full [OF len all] obtain d where
      run: "decode_loop 0 cycles (data ?s2) = (True, d)" and
      dc: "decode_and_check cycles ?s2 = (frame_valid d, ?s2\<lparr>data := d, lastresult := frame_valid d\<rparr>)"
      by blast
    from run have d: "snd (decode_loop 0 cycles [0, 0, 0, 0, 0]) = d" by simp
    from nz have data: "data s' = d" by (simp add: s' d)
    from ok nz dc have "\<not> frame_valid d" by simp
    moreover have "bit (d ! (i div 8)) (7 - i mod 8) = pulse_bit cycles i" if "i < 40" for i
      using decode_loop_bit_position(2) [of "[0, 0, 0, 0, 0]" cycles i] all that d by simp
    ultimately show ?thesis by (simp add: data)
  qed
  have part: "\<forall>b<5. \<forall>n<8. bit (data s' ! b) n \<longleftrightarrow>
           n < j - 8 * b \<and> pulse_bit cycles (min (8 * b + 8) j - 1 - n)"
    if st: "p \<noteq> 0 \<and> q \<noteq> 0 \<and> j < 40 \<and> (\<forall>k<2 * j. cycles ! k \<noteq> 0) \<and>
      (cycles ! (2 * j) = 0 \<or> cycles ! (2 * j + 1) = 0)"
  proof (intro allI impI)
    fix b n :: nat assume b: "b < 5" and n: "n < 8"
    from st have j: "j < 40" and nz: "\<forall>k<2 * j. cycles ! k \<noteq> 0"
      and z: "cycles ! (2 * j) = 0 \<or> cycles ! (2 * j + 1) = 0" by blast+
    from st have data: "data s' = snd (decode_loop 0 cycles [0, 0, 0, 0, 0])" by (simp add: s')
    show "bit (data s' ! b) n \<longleftrightarrow>
           n < j - 8 * b \<and> pulse_bit cycles (min (8 * b + 8) j - 1 - n)"
      unfolding data by (rule decode_loop_stopped(2) [OF j nz z b n])
  qed
  have d: "data s' = ?d" by (simp add: s')
  have a: "lastresult s' = False" "lastreadtime s' = ?now"
    "s' = s\<lparr>data := data s', lastreadtime := ?now, lastresult := False\<rparr>"
    unfolding d by (simp_all add: s')
  have i: "\<forall>d. priv_read (s\<lparr>data := d\<rparr>) w = (False, s', w')" using indep r by simp
  have l: "length (data s') = 5" unfolding d by (rule len)
  from a l d i full part
  show "lastresult s' = False \<and> lastreadtime s' = ?now \<and> length (data s') = 5 \<and> data s' = ?d \<and>
     s' = s\<lparr>data := data s', lastreadtime := ?now, lastresult := False\<rparr> \<and>
     (\<forall>d. priv_read (s\<lparr>data := d\<rparr>) w = (False, s', w')) \<and>
     (p \<noteq> 0 \<and> q \<noteq> 0 \<and> (\<forall>k<80. cycles ! k \<noteq> 0) \<longrightarrow>
        \<not> frame_valid (data s') \<and>
        (\<forall>i<40. bit (data s' ! (i div 8)) (7 - i mod 8) = pulse_bit cycles i)) \<and>
     (p \<noteq> 0 \<and> q \<noteq> 0 \<and> j < 40 \<and> (\<forall>k<2 * j. cycles ! k \<noteq> 0) \<and>
      (cycles ! (2 * j) = 0 \<or> cycles ! (2 * j + 1) = 0) \<longrightarrow>
        (\<forall>b<5. \<forall>n<8. bit (data s' ! b) n \<longleftrightarrow>
           n < j - 8 * b \<and> pulse_bit cycles (min (8 * b + 8) j - 1 - n)))"
    by blast
qed

theorem failed_run_overwrites_frame_witness:
  "data (fst (snd (priv_read fresh_dht unplugged_world))) = [0, 0, 0, 0, 0] \<and>
   lastresult (fst (snd (priv_read fresh_dht unplugged_world))) = False \<and>
   data (fst (snd (priv_read fresh_dht noisy_world))) = [255, 255, 255, 255, 255] \<and>
   \<not> frame_valid (data (fst (snd (priv_read fresh_dht noisy_world)))) \<and>
   bit (data (fst (snd (priv_read fresh_dht noisy_world))) ! 0) 7 \<and>
   priv_read (fresh_dht\<lparr>data := [1, 2, 3, 4, 5]\<rparr>) noisy_world
     = priv_read fresh_dht noisy_world \<and>
   \<not> fst (priv_read fresh_dht cut_world) \<and>
   data (fst (snd (priv_read fresh_dht cut_world))) = [7, 0, 0, 0, 0]"
proof -
  let ?u1 = "start_signal (snd (millis unplugged_world))"
  let ?su = "fresh_dht\<lparr>data := [0, 0, 0, 0, 0], lastreadtime := 5000, lastresult := False\<rparr>"
  let ?wu = "unplugged_world\<lparr>millis_calls := 1, pin_reads := 1,
          events := start_events @ [InterruptLockRelease]\<rparr>"
  let ?uq = "expectPulse fresh_dht HIGH (?u1\<lparr>pin_reads := pin_reads ?u1 + 1\<rparr>)"
  let ?uc = "capture fresh_dht (snd ?uq)"
  have nru: "\<not> rate_limited fresh_dht (millis_seq unplugged_world (millis_calls unplugged_world))"
    by (simp add: rate_limited_def unplugged_world_def fresh_dht_def)
  have idle: "pin_seq unplugged_world = (\<lambda>n. HIGH)" by (simp add: unplugged_world_def)
  from priv_read_unplugged [OF nru idle]
  have ru: "priv_read fresh_dht unplugged_world = (False, ?su, ?wu)"
    by (simp add: unplugged_world_def)
  have "pin_seq ?u1 = (\<lambda>n. HIGH)"
    by (simp add: start_signal_events millis_def unplugged_world_def)
  from expectPulse_idle [OF this]
  have pu: "expectPulse fresh_dht LOW ?u1 = (0, ?u1\<lparr>pin_reads := pin_reads ?u1 + 1\<rparr>)" .
  have cu: "capture fresh_dht (snd ?uq) = (fst ?uc, snd ?uc)" by simp
  have qu: "?uq = (fst ?uq, snd ?uq)" by simp
  from failed_run_overwrites_frame [where s = fresh_dht and w = unplugged_world and s' = ?su
      and w' = ?wu and p = 0 and ?w2.0 = "?u1\<lparr>pin_reads := pin_reads ?u1 + 1\<rparr>"
      and q = "fst ?uq" and ?w3.0 = "snd ?uq" and cycles = "fst ?uc" and ?w4.0 = "snd ?uc"
      and j = 0]
    nru ru pu qu cu
  have a: "lastresult ?su = False"
    "data ?su = (if (0::uint32) = 0 \<or> fst ?uq = 0 then [0, 0, 0, 0, 0]
                else snd (decode_loop 0 (fst ?uc) [0, 0, 0, 0, 0]))"
    by blast+
  let ?n1 = "start_signal (snd (millis noisy_world))"
  let ?c = "fst (capture fresh_dht (?n1\<lparr>pin_reads := 5\<rparr>))"
  let ?sn = "fresh_dht\<lparr>data := [255, 255, 255, 255, 255], lastreadtime := 5000,
     lastresult := False\<rparr>"
  let ?wn = "noisy_world\<lparr>millis_calls := 1, pin_reads := 205,
        events := start_events @ [InterruptLockRelease]\<rparr>"
  have nrn: "\<not> rate_limited fresh_dht (millis_seq noisy_world (millis_calls noisy_world))"
    by (simp add: rate_limited_def fresh_dht_def noisy_world_def)
  from noisy_world_pulses have
    p: "expectPulse fresh_dht LOW ?n1 = (1, ?n1\<lparr>pin_reads := 2\<rparr>)" and
    q: "expectPulse fresh_dht HIGH (?n1\<lparr>pin_reads := 2\<rparr>) = (2, ?n1\<lparr>pin_reads := 5\<rparr>)" and
    c: "capture fresh_dht (?n1\<lparr>pin_reads := 5\<rparr>) = (?c, ?n1\<lparr>pin_reads := 205\<rparr>)" and
    pat: "\<forall>k<80. ?c ! k = (if even k then 1 else 2)"
    by (simp_all add: prod_eq_iff)
  from pat have nz: "\<forall>k<80. ?c ! k \<noteq> 0" by simp
  have pb: "pulse_bit ?c 0" using pat by (simp add: pulse_bit_def decode_bit_def)
  note T = failed_run_overwrites_frame [where s = fresh_dht and w = noisy_world and s' = ?sn
      and w' = ?wn and p = 1 and ?w2.0 = "?n1\<lparr>pin_reads := 2\<rparr>" and q = 2
      and ?w3.0 = "?n1\<lparr>pin_reads := 5\<rparr>" and cycles = ?c
      and ?w4.0 = "?n1\<lparr>pin_reads := 205\<rparr>" and j = 0]
  have ne: "(1::uint32) \<noteq> 0" "(2::uint32) \<noteq> 0" by simp_all
  from T nrn priv_read_noisy_world p q c nz ne
  have b: "\<not> frame_valid (data ?sn)"
    and bits: "\<forall>i<40. bit (data ?sn ! (i div 8)) (7 - i mod 8) = pulse_bit ?c i"
    and ind: "\<forall>d. priv_read (fresh_dht\<lparr>data := d\<rparr>) noisy_world = (False, ?sn, ?wn)"
    by blast+
  have "(0::nat) < 40" by simp
  with bits have "bit (data ?sn ! (0 div 8)) (7 - 0 mod 8) = pulse_bit ?c 0" by blast
  with pb have b7: "bit (data ?sn ! 0) 7" by simp
  from ind have i5: "priv_read (fresh_dht\<lparr>data := [1, 2, 3, 4, 5]\<rparr>) noisy_world = (False, ?sn, ?wn)"
    by blast
  have d0: "data ?su = [0, 0, 0, 0, 0]" using a(2) by simp
  have d5: "data ?sn = [255, 255, 255, 255, 255]" by simp
  let ?k1 = "start_signal (snd (millis cut_world))"
  let ?cc = "fst (capture fresh_dht (?k1\<lparr>pin_reads := 5\<rparr>))"
  let ?sc = "fst (snd (priv_read fresh_dht cut_world))"
  let ?wc = "snd (snd (priv_read fresh_dht cut_world))"
  have nrc: "\<not> rate_limited fresh_dht (millis_seq cut_world (millis_calls cut_world))"
    by (simp add: rate_limited_def fresh_dht_def cut_world_def)
  have rc: "priv_read fresh_dht cut_world = (False, ?sc, ?wc)"
    using priv_read_cut_world by (simp add: prod_eq_iff)
  from cut_world_pulses have
    pc: "expectPulse fresh_dht LOW ?k1 = (1, ?k1\<lparr>pin_reads := 2\<rparr>)" and
    qc: "expectPulse fresh_dht HIGH (?k1\<lparr>pin_reads := 2\<rparr>) = (2, ?k1\<lparr>pin_reads := 5\<rparr>)" and
    patc: "\<forall>k<6. ?cc ! k = (if even k then 1 else 2)" and zc: "?cc ! 6 = 0"
    by blast+
  have cc: "capture fresh_dht (?k1\<lparr>pin_reads := 5\<rparr>)
      = (?cc, snd (capture fresh_dht (?k1\<lparr>pin_reads := 5\<rparr>)))" by simp
  from patc have nzc: "\<forall>k<2 * 3. ?cc ! k \<noteq> 0" by simp
  from zc have zc': "?cc ! (2 * 3) = 0 \<or> ?cc ! (2 * 3 + 1) = 0" by simp
  have j3: "(3::nat) < 40" by simp
  from failed_run_overwrites_frame [where s = fresh_dht and w = cut_world and s' = ?sc
      and w' = ?wc and p = 1 and ?w2.0 = "?k1\<lparr>pin_reads := 2\<rparr>" and q = 2
      and ?w3.0 = "?k1\<lparr>pin_reads := 5\<rparr>" and cycles = ?cc
      and ?w4.0 = "snd (capture fresh_dht (?k1\<lparr>pin_reads := 5\<rparr>))" and j = 3]
    nrc rc pc qc cc ne j3 nzc zc'
  have lenc: "length (data ?sc) = 5"
    and bitsc: "\<forall>b<5. \<forall>n<8. bit (data ?sc ! b) n \<longleftrightarrow>
           n < 3 - 8 * b \<and> pulse_bit ?cc (min (8 * b + 8) 3 - 1 - n)"
    by blast+
  have pbc: "pulse_bit ?cc i" if "i < 3" for i
  proof -
    from that have "2 * i < 6" "2 * i + 1 < 6" by simp_all
    with patc have "?cc ! (2 * i) = 1" "?cc ! (2 * i + 1) = 2" by simp_all
    then show ?thesis by (simp add: pulse_bit_def decode_bit_def)
  qed
  have "data ?sc ! b = [7, 0, 0, 0, 0] ! b" if b: "b < 5" for b
  proof (rule bit_word_eqI)
    fix n assume "n < LENGTH(8)"
    then have n: "n < 8" by simp
    from bitsc b n have e: "bit (data ?sc ! b) n \<longleftrightarrow>
           n < 3 - 8 * b \<and> pulse_bit ?cc (min (8 * b + 8) 3 - 1 - n)" by blast
    show "bit (data ?sc ! b) n = bit ([7, 0, 0, 0, 0 :: uint8] ! b) n"
    proof (cases "b = 0")
      case True
      have "pulse_bit ?cc (2 - n)" if "n < 3" using that by (intro pbc) simp
      with e True bit_seven [OF n] show ?thesis by auto
    next
      case False
      with b have "[7, 0, 0, 0, 0 :: uint8] ! b = 0" by (simp add: nth_Cons')
      with e False show ?thesis by simp
    qed
  qed
  with lenc have d7: "data ?sc = [7, 0, 0, 0, 0]" by (intro nth_equalityI) simp_all
  show ?thesis
    unfolding i5 priv_read_noisy_world ru fst_conv snd_conv
    using a(1) d0 d5 b b7 d7 priv_read_cut_world by blast
qed

text \<open>
  The claim as it was stated fails when the sensor is unplugged after a good reading:
  the valid frame is replaced by zeros.
\<close>

theorem failed_run_overwrites_frame_counterexample:
  "fst (priv_read fresh_dht unplugged_world) = False \<and>
   data fresh_dht = [40, 0, 25, 0, 65] \<and>
   data (fst (snd (priv_read fresh_dht unplugged_world))) = [0, 0, 0, 0, 0]"
proof -
  have "\<not> rate_limited fresh_dht (millis_seq unplugged_world (millis_calls unplugged_world))"
    by (simp add: rate_limited_def unplugged_world_def fresh_dht_def)
  moreover have "pin_seq unplugged_world = (\<lambda>n. HIGH)" by (simp add: unplugged_world_def)
  ultimately show ?thesis
    by (simp add: priv_read_unplugged) (simp add: fresh_dht_def)
qed

section \<open>The retry loop of \<open>read\<close> and \<open>readAll\<close>\<close>

lemma priv_read_counts:
  "millis_calls (snd (snd (priv_read s w))) = millis_calls w + 1 \<and>
   pauses (snd (snd (priv_read s w))) = pauses w"
proof (cases "rate_limited s (millis_seq w (millis_calls w))")
  case True
  then show ?thesis by (simp add: priv_read_cached pauses_def)
next
  case False
  from priv_read_hardware [OF this] show ?thesis
    by (auto simp add: pauses_def start_events_def)
qed

lemma delay_counts:
  "millis_calls (delay 100 w) = millis_calls w" "pauses (delay 100 w) = pauses w + 1"
  by (simp_all add: delay_def emit_def pauses_def)

lemma retry_loop_exhausted:
  assumes "failed_attempts (Suc n) s w" "count + int n = 10"
  shows "fst (retry_loop count s w) = False \<and>
         millis_calls (snd (snd (retry_loop count s w))) = millis_calls w + Suc n \<and>
         pauses (snd (snd (retry_loop count s w))) = pauses w + Suc n"
  using assms
proof (induction n arbitrary: count s w)
  case 0
  obtain ok s' w' where r: "priv_read s w = (ok, s', w')" by (cases "priv_read s w")
  with "0.prems" have "\<not> ok" "count = 10" by simp_all
  then have "retry_loop count s w = (False, s', delay 100 w')"
    by (subst retry_loop.simps) (simp add: r Let_def)
  then show ?case
    using priv_read_counts [of s w] by (simp add: r delay_counts)
next
  case (Suc n)
  obtain ok s' w' where r: "priv_read s w = (ok, s', w')" by (cases "priv_read s w")
  with Suc.prems have f: "\<not> ok" "failed_attempts (Suc n) s' (delay 100 w')" and c: "count + 1 \<le> 10"
    by simp_all
  then have step: "retry_loop count s w = retry_loop (count + 1) s' (delay 100 w')"
    by (subst retry_loop.simps) (simp add: r Let_def)
  have "count + 1 + int n = 10" using Suc.prems(2) by simp
  from Suc.IH [OF f(2) this] show ?case
    unfolding step using priv_read_counts [of s w] by (simp add: r delay_counts)
qed

lemma idle_failed_attempts:
  assumes "pin_seq w = (\<lambda>n. HIGH)"
    "lastresult s = False \<or> \<not> rate_limited s (millis_seq w (millis_calls w))"
  shows "failed_attempts n s w"
  using assms
proof (induction n arbitrary: s w)
  case 0
  show ?case by simp
next
  case (Suc n)
  show ?case
  proof (cases "rate_limited s (millis_seq w (millis_calls w))")
    case True
    with Suc.prems(2) have f: "lastresult s = False" by simp
    let ?w = "delay 100 (w\<lparr>millis_calls := millis_calls w + 1\<rparr>)"
    have "pin_seq ?w = (\<lambda>n. HIGH)" using Suc.prems(1) by (simp add: delay_def emit_def)
    from Suc.IH [OF this, of s] f have "failed_attempts n s ?w" by simp
    then show ?thesis using f by (simp add: priv_read_cached [OF True])
  next
    case False
    let ?s = "s\<lparr>data := [0, 0, 0, 0, 0], lastreadtime := millis_seq w (millis_calls w),
      lastresult := False\<rparr>"
    let ?w = "delay 100 (w\<lparr>millis_calls := millis_calls w + 1, pin_reads := pin_reads w + 1,
       events := events w @ start_events @ [InterruptLockRelease]\<rparr>)"
    have "pin_seq ?w = (\<lambda>n. HIGH)" using Suc.prems(1) by (simp add: delay_def emit_def)
    from Suc.IH [OF this, of ?s] have "failed_attempts n ?s ?w" by simp
    then show ?thesis by (simp add: priv_read_unplugged [OF False Suc.prems(1)])
  qed
qed

lemma read_exhausted:
  assumes "failed_attempts 11 s w"
  shows "fst (read fp s w) = ERROR_READ \<and>
     fst (snd (read fp s w)) = StringLit ''Error reading'' \<and>
     millis_calls (snd (snd (snd (read fp s w)))) = millis_calls w + 11 \<and>
     pauses (snd (snd (snd (read fp s w)))) = pauses w + 11"
proof -
  have "failed_attempts (Suc 10) s w" using assms by (simp add: eval_nat_numeral)
  from retry_loop_exhausted [OF this, of 0] show ?thesis
    by (simp add: read_def split_beta)
qed

lemma readAll_exhausted:
  assumes "failed_attempts 11 s w"
  shows "fst (readAll fp s w) = ERROR_READ \<and>
     fst (snd (readAll fp s w)) = StringLit ''Error reading'' \<and>
     millis_calls (snd (snd (snd (readAll fp s w)))) = millis_calls w + 11 \<and>
     pauses (snd (snd (snd (readAll fp s w)))) = pauses w + 11"
proof -
  have "failed_attempts (Suc 10) s w" using assms by (simp add: eval_nat_numeral)
  from retry_loop_exhausted [OF this, of 0] show ?thesis
    by (simp add: readAll_def split_beta)
qed

lemma constructed_idle_fails:
  "failed_attempts n (fst (Dht11 1000 fresh_dht idle_world)) (snd (Dht11 1000 fresh_dht idle_world))"
proof -
  let ?s = "fst (Dht11 1000 fresh_dht idle_world)" and ?w = "snd (Dht11 1000 fresh_dht idle_world)"
  have "pin_seq ?w = (\<lambda>n. HIGH)"
    by (simp add: Dht11_def Dht11_begin_def pinMode_def emit_def idle_world_def)
  moreover have "\<not> rate_limited ?s (millis_seq ?w (millis_calls ?w))"
    by (simp add: Dht11_def Dht11_begin_def pinMode_def emit_def idle_world_def
        rate_limited_def MIN_INTERVAL_def)
  ultimately show ?thesis by (intro idle_failed_attempts) simp_all
qed

text \<open>
  C5 (as amended). When \<open>_read\<close> fails on every invocation, \<open>read\<close> and \<open>readAll\<close>
  invoke it exactly eleven times, call \<open>delay(100)\<close> after each of the eleven failures,
  the last one included, and then return \<open>ERROR_READ\<close> with the text
  \<open>Error reading\<close>. An invocation of \<open>_read\<close> is counted by its one call of
  \<open>millis()\<close>; nothing else in the loop reads the clock.
\<close>

theorem retries_exhausted:
  "failed_attempts 11 s w \<longrightarrow>
     fst (read fp s w) = ERROR_READ \<and>
     fst (snd (read fp s w)) = StringLit ''Error reading'' \<and>
     millis_calls (snd (snd (snd (read fp s w)))) = millis_calls w + 11 \<and>
     pauses (snd (snd (snd (read fp s w)))) = pauses w + 11 \<and>
     fst (readAll fp s w) = ERROR_READ \<and>
     fst (snd (readAll fp s w)) = StringLit ''Error reading'' \<and>
     millis_calls (snd (snd (snd (readAll fp s w)))) = millis_calls w + 11 \<and>
     pauses (snd (snd (snd (readAll fp s w)))) = pauses w + 11"
  using read_exhausted [of s w fp] readAll_exhausted [of s w fp] by blast

theorem retries_exhausted_witness:
  "fst (read exact_fpu (fst (Dht11 1000 fresh_dht idle_world))
          (snd (Dht11 1000 fresh_dht idle_world))) = ERROR_READ \<and>
   pauses (snd (snd (snd (read exact_fpu (fst (Dht11 1000 fresh_dht idle_world))
          (snd (Dht11 1000 fresh_dht idle_world)))))) = 11 \<and>
   fst (readAll exact_fpu (fst (Dht11 1000 fresh_dht idle_world))
          (snd (Dht11 1000 fresh_dht idle_world))) = ERROR_READ"
proof -
  have "pauses (snd (Dht11 1000 fresh_dht idle_world)) = 0"
    by (simp add: Dht11_def Dht11_begin_def pinMode_def emit_def idle_world_def pauses_def)
  with retries_exhausted [of "fst (Dht11 1000 fresh_dht idle_world)"
      "snd (Dht11 1000 fresh_dht idle_world)" exact_fpu]
    constructed_idle_fails [of 11]
  show ?thesis by simp
qed

text \<open>
  The claim as it was stated fails on the idle line: all the invocations fail, and there
  are eleven of them, not ten, since \<open>count > 10\<close> is tested after \<open>count\<close> has been
  incremented.
\<close>

theorem retries_exhausted_counterexample:
  "failed_attempts 11 (fst (Dht11 1000 fresh_dht idle_world))
     (snd (Dht11 1000 fresh_dht idle_world)) \<and>
   fst (read exact_fpu (fst (Dht11 1000 fresh_dht idle_world))
          (snd (Dht11 1000 fresh_dht idle_world))) = ERROR_READ \<and>
   millis_calls (snd (snd (snd (read exact_fpu (fst (Dht11 1000 fresh_dht idle_world))
          (snd (Dht11 1000 fresh_dht idle_world)))))) = 11 \<and>
   millis_calls (snd (Dht11 1000 fresh_dht idle_world)) = 0"
proof -
  have "millis_calls (snd (Dht11 1000 fresh_dht idle_world)) = 0"
    by (simp add: Dht11_def Dht11_begin_def pinMode_def emit_def idle_world_def)
  with read_exhausted [OF constructed_idle_fails [of 11], of exact_fpu]
    constructed_idle_fails [of 11]
  show ?thesis by simp
qed

section \<open>The heat index\<close>

lemma rounds_within_exact: "rounds_within exact_fpu"
  by (simp add: rounds_within_def exact_fpu_def)

lemma dbl_close:
  assumes "rounds_within fp" "\<bar>x - y\<bar> \<le> e" "\<bar>y\<bar> + e \<le> 1000"
  shows "\<bar>dbl fp x - y\<bar> \<le> e + 1 / 10000"
proof -
  from assms(2,3) have "\<bar>x\<bar> \<le> 1000" by linarith
  with assms(1) have "\<bar>dbl fp x - x\<bar> \<le> 1 / 10000" by (simp add: rounds_within_def)
  with assms(2) show ?thesis by linarith
qed

lemma flt_close:
  assumes "rounds_within fp" "\<bar>x - y\<bar> \<le> e" "\<bar>y\<bar> + e \<le> 1000"
  shows "\<bar>flt fp x - y\<bar> \<le> e + 1 / 10000"
proof -
  from assms(2,3) have "\<bar>x\<bar> \<le> 1000" by linarith
  with assms(1) have "\<bar>flt fp x - x\<bar> \<le> 1 / 10000" by (simp add: rounds_within_def)
  with assms(2) show ?thesis by linarith
qed

lemma lit_close:
  assumes "rounds_within fp" "\<bar>c\<bar> \<le> 1000"
  shows "\<bar>lit fp c - c\<bar> \<le> 1 / 10000"
  using assms by (simp add: rounds_within_def lit_def)

lemma mult_error:
  fixes a b a' b' :: real
  assumes "\<bar>a - a'\<bar> \<le> ea" "\<bar>b - b'\<bar> \<le> eb" "\<bar>a'\<bar> \<le> A" "\<bar>b\<bar> \<le> B"
  shows "\<bar>a * b - a' * b'\<bar> \<le> ea * B + A * eb"
proof -
  have "a * b - a' * b' = (a - a') * b + a' * (b - b')" by (simp add: algebra_simps)
  then have "\<bar>a * b - a' * b'\<bar> \<le> \<bar>a - a'\<bar> * \<bar>b\<bar> + \<bar>a'\<bar> * \<bar>b - b'\<bar>"
    by (metis abs_mult abs_triangle_ineq)
  also have "\<dots> \<le> ea * B + A * eb"
    using assms by (intro add_mono mult_mono) (auto intro: order_trans [OF abs_ge_zero])
  finally show ?thesis .
qed

lemma simple_average_close:
  assumes R: "rounds_within fp" and t: "0 \<le> t" "t \<le> 200" and h: "0 \<le> h" "h \<le> 100"
  shows "\<bar>simple_average fp t h - 0.5 * (t + 61 + (t - 68) * 1.2 + h * 0.094)\<bar> \<le> 6 / 100"
proof -
  define k12 k094 k05 :: real where "k12 = 1.2" and "k094 = 0.094" and "k05 = 0.5"
  have k: "0 \<le> k12" "k12 \<le> 12 / 10" "0 \<le> k094" "k094 \<le> 1 / 10" "0 \<le> k05" "k05 \<le> 1 / 2"
    by (simp_all add: k12_def k094_def k05_def)
  let ?c61 = "lit fp 61" and ?c68 = "lit fp 68" and ?c12 = "lit fp k12"
  let ?c094 = "lit fp k094" and ?c05 = "lit fp k05"
  let ?a1 = "fadd fp t ?c61"
  let ?a2 = "fsub fp t ?c68"
  let ?a3 = "fmul fp ?a2 ?c12"
  let ?a4 = "fmul fp h ?c094"
  let ?a5 = "fadd fp ?a1 ?a3"
  let ?a6 = "fadd fp ?a5 ?a4"
  let ?a7 = "fmul fp ?c05 ?a6"
  define P where "P = (t - 68) * k12"
  define Q where "Q = h * k094"
  define X where "X = t + 61 + P + Q"
  have "\<bar>t - 68\<bar> \<le> 132" using t by linarith
  then have "\<bar>t - 68\<bar> * \<bar>k12\<bar> \<le> 132 * (12 / 10)"
    using k by (intro mult_mono) simp_all
  then have P: "\<bar>P\<bar> \<le> 160" by (simp add: P_def abs_mult)
  have "\<bar>h\<bar> * \<bar>k094\<bar> \<le> 100 * (1 / 10)"
    using h k by (intro mult_mono) simp_all
  then have Q: "\<bar>Q\<bar> \<le> 10" by (simp add: Q_def abs_mult)
  have X: "\<bar>X\<bar> \<le> 432"
    using P Q t unfolding X_def by linarith
  have "\<bar>k05\<bar> * \<bar>X\<bar> \<le> 1 / 2 * 432"
    using k X by (intro mult_mono) simp_all
  then have hX: "\<bar>k05 * X\<bar> \<le> 216" by (simp add: abs_mult)
  have c61: "\<bar>?c61 - 61\<bar> \<le> 1 / 10000"
    by (rule lit_close [OF R]) simp
  have c68: "\<bar>?c68 - 68\<bar> \<le> 1 / 10000"
    by (rule lit_close [OF R]) simp
  have c12: "\<bar>?c12 - k12\<bar> \<le> 1 / 10000"
    using k by (intro lit_close [OF R]) linarith
  have c094: "\<bar>?c094 - k094\<bar> \<le> 1 / 10000"
    using k by (intro lit_close [OF R]) linarith
  have c05: "\<bar>?c05 - k05\<bar> \<le> 1 / 10000"
    using k by (intro lit_close [OF R]) linarith
  have "\<bar>t + ?c61 - (t + 61)\<bar> \<le> 1 / 10000" "\<bar>t + 61\<bar> + 1 / 10000 \<le> 1000"
    using c61 t by linarith+
  from dbl_close [OF R this] have a1: "\<bar>?a1 - (t + 61)\<bar> \<le> 2 / 10000"
    by (simp add: fadd_def)
  have "\<bar>t - ?c68 - (t - 68)\<bar> \<le> 1 / 10000" "\<bar>t - 68\<bar> + 1 / 10000 \<le> 1000"
    using c68 t by linarith+
  from dbl_close [OF R this] have a2: "\<bar>?a2 - (t - 68)\<bar> \<le> 2 / 10000"
    by (simp add: fsub_def)
  have "\<bar>t - 68\<bar> \<le> 132" "\<bar>?c12\<bar> \<le> 13 / 10" using t c12 k by linarith+
  from mult_error [OF a2 c12 this]
  have p3: "\<bar>?a2 * ?c12 - P\<bar> \<le> 1346 / 100000" by (simp add: P_def)
  have "\<bar>P\<bar> + 1346 / 100000 \<le> 1000" using P by linarith
  from dbl_close [OF R p3 this] have a3: "\<bar>?a3 - P\<bar> \<le> 1356 / 100000"
    by (simp add: fmul_def)
  have "\<bar>h - h\<bar> \<le> 0" "\<bar>h\<bar> \<le> 100" "\<bar>?c094\<bar> \<le> 1" using h c094 k by linarith+
  from mult_error [OF this(1) c094 this(2,3)]
  have p4: "\<bar>h * ?c094 - Q\<bar> \<le> 1 / 100" by (simp add: Q_def)
  have "\<bar>Q\<bar> + 1 / 100 \<le> 1000" using Q by linarith
  from dbl_close [OF R p4 this] have a4: "\<bar>?a4 - Q\<bar> \<le> 101 / 10000"
    by (simp add: fmul_def)
  have "\<bar>?a1 + ?a3 - (t + 61 + P)\<bar> \<le> 1376 / 100000" "\<bar>t + 61 + P\<bar> + 1376 / 100000 \<le> 1000"
    using a1 a3 P t by linarith+
  from dbl_close [OF R this] have a5: "\<bar>?a5 - (t + 61 + P)\<bar> \<le> 1386 / 100000"
    by (simp add: fadd_def)
  have "\<bar>?a5 + ?a4 - X\<bar> \<le> 2396 / 100000" "\<bar>X\<bar> + 2396 / 100000 \<le> 1000"
    using a5 a4 X unfolding X_def by linarith+
  from dbl_close [OF R this] have a6: "\<bar>?a6 - X\<bar> \<le> 2406 / 100000"
    by (simp add: fadd_def)
  have "\<bar>k05\<bar> \<le> 1 / 2" "\<bar>?a6\<bar> \<le> 433" using a6 X k by linarith+
  from mult_error [OF c05 a6 this]
  have p7: "\<bar>?c05 * ?a6 - k05 * X\<bar> \<le> 5533 / 100000" by simp
  have "\<bar>k05 * X\<bar> + 5533 / 100000 \<le> 1000" using hX by linarith
  from dbl_close [OF R p7 this] have a7: "\<bar>?a7 - k05 * X\<bar> \<le> 5543 / 100000"
    by (simp add: fmul_def)
  have "\<bar>k05 * X\<bar> + 5543 / 100000 \<le> 1000" using hX by linarith
  from flt_close [OF R a7 this] have "\<bar>flt fp ?a7 - k05 * X\<bar> \<le> 5553 / 100000"
    by simp
  then have "\<bar>flt fp ?a7 - k05 * X\<bar> \<le> 6 / 100" by linarith
  then show ?thesis
    unfolding simple_average_def X_def P_def Q_def k12_def k094_def k05_def by simp
qed

lemma simple_average_exact:
  "simple_average exact_fpu t h = 0.5 * (t + 61 + (t - 68) * 1.2 + h * 0.094)"
  by (simp add: simple_average_def exact_fpu_def fmul_def fadd_def fsub_def lit_def)

lemma lit_near:
  assumes "rounds_within fp" "\<bar>c\<bar> \<le> 1000"
  shows "c - 1 / 10000 \<le> lit fp c" "lit fp c \<le> c + 1 / 10000"
  using lit_close [OF assms] by linarith+

lemma branch_81_10:
  assumes R: "rounds_within fp"
  shows "heat_index_branch fp 81 10 = LowHumidity"
proof -
  have "\<bar>simple_average fp 81 10 - 0.5 * (81 + 61 + (81 - 68) * 1.2 + 10 * 0.094)\<bar> \<le> 6 / 100"
    using R by (intro simple_average_close) simp_all
  moreover have "0.5 * (81 + 61 + (81 - 68) * 1.2 + 10 * 0.094) = (7927 / 100 :: real)" by simp
  ultimately have "\<bar>simple_average fp 81 10 - 7927 / 100\<bar> \<le> 6 / 100" by (simp only:)
  then have "simple_average fp 81 10 > 79" by linarith
  moreover have "lit fp 80 \<le> 81" "81 \<le> lit fp 112"
    using lit_near [OF R, of 80] lit_near [OF R, of 112] by simp_all
  ultimately show ?thesis by (simp add: heat_index_branch_def)
qed

lemma branch_85_90:
  assumes R: "rounds_within fp"
  shows "heat_index_branch fp 85 90 = HighHumidity"
proof -
  have "\<bar>simple_average fp 85 90 - 0.5 * (85 + 61 + (85 - 68) * 1.2 + 90 * 0.094)\<bar> \<le> 6 / 100"
    using R by (intro simple_average_close) simp_all
  moreover have "0.5 * (85 + 61 + (85 - 68) * 1.2 + 90 * 0.094) = (8743 / 100 :: real)" by simp
  ultimately have "\<bar>simple_average fp 85 90 - 8743 / 100\<bar> \<le> 6 / 100" by (simp only:)
  then have "simple_average fp 85 90 > 79" by linarith
  moreover have "lit fp 80 \<le> 85" "85 \<le> lit fp 87" "lit fp 85 < 90"
    using lit_near [OF R, of 80] lit_near [OF R, of 87] lit_near [OF R, of 85] by simp_all
  ultimately show ?thesis by (simp add: heat_index_branch_def)
qed

lemma branch_70:
  assumes R: "rounds_within fp" and h: "0 \<le> h" "h \<le> 100"
  shows "simple_average fp 70 h \<le> 79" "heat_index_branch fp 70 h = SimpleAverage"
proof -
  have "\<bar>simple_average fp 70 h - 0.5 * (70 + 61 + (70 - 68) * 1.2 + h * 0.094)\<bar> \<le> 6 / 100"
    using R h by (intro simple_average_close) simp_all
  moreover have "0.5 * (70 + 61 + (70 - 68) * 1.2 + h * 0.094) = 667 / 10 + 47 / 1000 * h"
    by (simp add: algebra_simps)
  ultimately have "\<bar>simple_average fp 70 h - (667 / 10 + 47 / 1000 * h)\<bar> \<le> 6 / 100"
    by (simp only:)
  then show "simple_average fp 70 h \<le> 79" using h by linarith
  then show "heat_index_branch fp 70 h = SimpleAverage" by (simp add: heat_index_branch_def)
qed

text \<open>
  C8. For every arithmetic that rounds within the assumed bound: at 81 degrees and 10 %
  humidity \<open>computeHeatIndex\<close> takes the low-humidity correction (line 108), at 85
  degrees and 90 % the high-humidity correction (line 113); at 70 degrees and any
  humidity from 0 to 100 the first estimate does not exceed 79, so the function returns
  it, and without rounding it is \<open>0.5 * (70 + 61.0 + (70 - 68.0) * 1.2 + h * 0.094)\<close>.
\<close>

theorem heat_index_branches:
  "rounds_within fp \<longrightarrow>
     heat_index_branch fp 81 10 = LowHumidity \<and>
     computeHeatIndex fp 81 10 = low_humidity_correction fp 81 10 (regression fp 81 10) \<and>
     heat_index_branch fp 85 90 = HighHumidity \<and>
     computeHeatIndex fp 85 90 = high_humidity_correction fp 85 90 (regression fp 85 90) \<and>
     (0 \<le> h \<and> h \<le> 100 \<longrightarrow>
        simple_average fp 70 h \<le> 79 \<and>
        heat_index_branch fp 70 h = SimpleAverage \<and>
        computeHeatIndex fp 70 h = simple_average fp 70 h \<and>
        simple_average exact_fpu 70 h = 0.5 * (70 + 61.0 + (70 - 68.0) * 1.2 + h * 0.094))"
proof (intro impI conjI)
  assume R: "rounds_within fp"
  show "heat_index_branch fp 81 10 = LowHumidity" using R by (rule branch_81_10)
  then show "computeHeatIndex fp 81 10 = low_humidity_correction fp 81 10 (regression fp 81 10)"
    by (simp add: computeHeatIndex_def)
  show "heat_index_branch fp 85 90 = HighHumidity" using R by (rule branch_85_90)
  then show "computeHeatIndex fp 85 90 = high_humidity_correction fp 85 90 (regression fp 85 90)"
    by (simp add: computeHeatIndex_def)
  assume h: "0 \<le> h \<and> h \<le> 100"
  then show "simple_average fp 70 h \<le> 79" using branch_70(1) [OF R] by simp
  from h show b: "heat_index_branch fp 70 h = SimpleAverage" using branch_70(2) [OF R] by simp
  then show "computeHeatIndex fp 70 h = simple_average fp 70 h"
    by (simp add: computeHeatIndex_def)
  show "simple_average exact_fpu 70 h = 0.5 * (70 + 61.0 + (70 - 68.0) * 1.2 + h * 0.094)"
    by (simp add: simple_average_exact)
qed

theorem heat_index_branches_witness:
  "heat_index_branch exact_fpu 81 10 = LowHumidity \<and>
   heat_index_branch exact_fpu 85 90 = HighHumidity \<and>
   heat_index_branch exact_fpu 70 50 = SimpleAverage \<and>
   computeHeatIndex exact_fpu 70 50 = 69.05"
proof -
  have "(0::real) \<le> 50 \<and> (50::real) \<le> 100" by simp
  with heat_index_branches [of exact_fpu 50] rounds_within_exact
  have "heat_index_branch exact_fpu 81 10 = LowHumidity"
    "heat_index_branch exact_fpu 85 90 = HighHumidity"
    "heat_index_branch exact_fpu 70 50 = SimpleAverage"
    "computeHeatIndex exact_fpu 70 50 = simple_average exact_fpu 70 50"
    "simple_average exact_fpu 70 50 = 0.5 * (70 + 61.0 + (70 - 68.0) * 1.2 + 50 * 0.094)"
    by blast+
  then show ?thesis by simp
qed

section \<open>The accessors\<close>

text \<open>
  C10. \<open>readTemperature\<close> returns \<open>convertCtoF(data[2])\<close> and \<open>readHumidity\<close> returns
  \<open>data[0]\<close>; both leave the object as it is, and two objects that agree on the byte
  read give the same value, whatever their other bytes and fields hold.
\<close>

theorem accessors_read_integer_bytes:
  "readTemperature fp s = (convertCtoF fp (real (unat (data s ! 2))), s) \<and>
   readHumidity s = (real (unat (data s ! 0)), s) \<and>
   (data s ! 2 = data s' ! 2 \<longrightarrow> fst (readTemperature fp s) = fst (readTemperature fp s')) \<and>
   (data s ! 0 = data s' ! 0 \<longrightarrow> fst (readHumidity s) = fst (readHumidity s'))"
  by (simp add: readTemperature_def readHumidity_def)

theorem accessors_read_integer_bytes_witness:
  "readTemperature exact_fpu fresh_dht = (77, fresh_dht) \<and>
   readHumidity fresh_dht = (40, fresh_dht) \<and>
   fst (readTemperature exact_fpu (fresh_dht\<lparr>data := [40, 7, 25, 9, 72], lastresult := False\<rparr>))
     = fst (readTemperature exact_fpu fresh_dht) \<and>
   fst (readHumidity (fresh_dht\<lparr>data := [40, 7, 25, 9, 72], lastresult := False\<rparr>))
     = fst (readHumidity fresh_dht)"
proof -
  let ?s = "fresh_dht\<lparr>data := [40, 7, 25, 9, 72], lastresult := False\<rparr>"
  have "data ?s ! 2 = data fresh_dht ! 2" "data ?s ! 0 = data fresh_dht ! 0"
    by (simp_all add: fresh_dht_def)
  with accessors_read_integer_bytes [of exact_fpu ?s fresh_dht]
    accessors_read_integer_bytes [of exact_fpu fresh_dht fresh_dht]
  have "readTemperature exact_fpu fresh_dht
          = (convertCtoF exact_fpu (real (unat (data fresh_dht ! 2))), fresh_dht)"
    "readHumidity fresh_dht = (real (unat (data fresh_dht ! 0)), fresh_dht)"
    "fst (readTemperature exact_fpu ?s) = fst (readTemperature exact_fpu fresh_dht)"
    "fst (readHumidity ?s) = fst (readHumidity fresh_dht)"
    by blast+
  moreover have "convertCtoF exact_fpu (real (unat (data fresh_dht ! 2))) = 77"
    "real (unat (data fresh_dht ! 0)) = 40"
    by (simp_all add: fresh_dht_def convertCtoF_def exact_fpu_def fadd_def fmul_def lit_def)
  ultimately show ?thesis by simp
qed

section \<open>The temperature conversions\<close>

text \<open>
  Without rounding, 20 degrees Celsius are 68 degrees Fahrenheit, and converting there and
  back multiplies by 0.99999: the constant \<open>0.55555\<close> is five ninths cut after five
  digits, so 68 degrees Fahrenheit come back as 19.9998 degrees Celsius.
\<close>

lemma convert_round_trip_exact:
  "convertCtoF exact_fpu 20 = 68"
  "convertFtoC exact_fpu 68 = 199998 / 10000"
  "convertFtoC exact_fpu (convertCtoF exact_fpu x) = 99999 / 100000 * x"
  by (simp_all add: convertCtoF_def convertFtoC_def exact_fpu_def fadd_def fmul_def lit_def)

lemma convertCtoF_close:
  assumes R: "rounds_within fp" and x: "\<bar>x\<bar> \<le> M" and M: "M \<le> 100"
  shows "\<bar>convertCtoF fp x - (x * (18 / 10) + 32)\<bar> \<le> M / 10000 + 3 / 10000"
proof -
  define k :: real where "k = 18 / 10"
  define l where "l = lit fp k"
  have k: "k = 18 / 10" by (simp add: k_def)
  have "\<bar>k\<bar> \<le> 1000" by (simp add: k_def)
  from lit_close [OF R this] have l: "\<bar>l - k\<bar> \<le> 1 / 10000" by (simp add: l_def)
  then have lb: "\<bar>l\<bar> \<le> 2" using k by linarith
  have x0: "\<bar>x - x\<bar> \<le> 0" by simp
  from mult_error [OF x0 l x lb] have p: "\<bar>x * l - x * k\<bar> \<le> M / 10000" by simp
  have "\<bar>x * k\<bar> = \<bar>x\<bar> * (18 / 10)" by (simp add: abs_mult k_def)
  with x M have xk: "\<bar>x * k\<bar> \<le> 180" by linarith
  have "\<bar>x * k\<bar> + M / 10000 \<le> 1000" using xk M by linarith
  from dbl_close [OF R p this]
  have d: "\<bar>dbl fp (x * l) - x * k\<bar> \<le> M / 10000 + 1 / 10000" .
  then have s: "\<bar>dbl fp (x * l) + 32 - (x * k + 32)\<bar> \<le> M / 10000 + 1 / 10000" by simp
  have "\<bar>x * k + 32\<bar> + (M / 10000 + 1 / 10000) \<le> 1000" using xk M by linarith
  from dbl_close [OF R s this]
  have a: "\<bar>dbl fp (dbl fp (x * l) + 32) - (x * k + 32)\<bar> \<le> M / 10000 + 1 / 10000 + 1 / 10000" .
  have "\<bar>x * k + 32\<bar> + (M / 10000 + 1 / 10000 + 1 / 10000) \<le> 1000" using xk M by linarith
  from flt_close [OF R a this]
  have "\<bar>flt fp (dbl fp (dbl fp (x * l) + 32)) - (x * k + 32)\<bar>
      \<le> M / 10000 + 1 / 10000 + 1 / 10000 + 1 / 10000" .
  moreover have "convertCtoF fp x = flt fp (dbl fp (dbl fp (x * l) + 32))"
    by (simp add: convertCtoF_def fadd_def fmul_def l_def k_def)
  ultimately show ?thesis unfolding k by linarith
qed

lemma convertFtoC_close:
  assumes R: "rounds_within fp" and f: "\<bar>f - (y + 32)\<bar> \<le> e" and y: "\<bar>y\<bar> \<le> Y"
    and Y: "Y \<le> 180" and e: "e \<le> 1"
  shows "\<bar>convertFtoC fp f - y * (55555 / 100000)\<bar>
     \<le> (e + 1 / 10000) * (6 / 10) + Y / 10000 + 2 / 10000"
proof -
  define k :: real where "k = 55555 / 100000"
  define l where "l = lit fp k"
  define a where "a = flt fp (f - 32)"
  have k: "k = 55555 / 100000" by (simp add: k_def)
  have "\<bar>k\<bar> \<le> 1000" by (simp add: k_def)
  from lit_close [OF R this] have l: "\<bar>l - k\<bar> \<le> 1 / 10000" by (simp add: l_def)
  then have lb: "\<bar>l\<bar> \<le> 6 / 10" using k by linarith
  from f have e0: "0 \<le> e" by linarith
  from f have "\<bar>f - 32 - y\<bar> \<le> e" by (simp add: algebra_simps)
  moreover have "\<bar>y\<bar> + e \<le> 1000" using y Y e by linarith
  ultimately have a: "\<bar>a - y\<bar> \<le> e + 1 / 10000" unfolding a_def by (rule flt_close [OF R])
  from mult_error [OF a l y lb]
  have p: "\<bar>a * l - y * k\<bar> \<le> (e + 1 / 10000) * (6 / 10) + Y * (1 / 10000)" .
  have "\<bar>y * k\<bar> = \<bar>y\<bar> * (55555 / 100000)" by (simp add: abs_mult k_def)
  with y Y have yk: "\<bar>y * k\<bar> \<le> 180" by linarith
  define E where "E = (e + 1 / 10000) * (6 / 10) + Y * (1 / 10000)"
  have "E = e * (6 / 10) + 6 / 100000 + Y / 10000" by (simp add: E_def algebra_simps)
  with e Y have E: "E \<le> 1" by linarith
  from p have p': "\<bar>a * l - y * k\<bar> \<le> E" by (simp add: E_def)
  have "\<bar>y * k\<bar> + E \<le> 1000" using yk E by linarith
  from dbl_close [OF R p' this] have d: "\<bar>dbl fp (a * l) - y * k\<bar> \<le> E + 1 / 10000" .
  have "\<bar>y * k\<bar> + (E + 1 / 10000) \<le> 1000" using yk E by linarith
  from flt_close [OF R d this]
  have "\<bar>flt fp (dbl fp (a * l)) - y * k\<bar> \<le> E + 1 / 10000 + 1 / 10000" .
  moreover have "convertFtoC fp f = flt fp (dbl fp (a * l))"
    by (simp add: convertFtoC_def fmul_def l_def k_def a_def)
  ultimately show ?thesis unfolding k E_def by simp
qed

lemma convert_round_trip_close_gen:
  assumes R: "rounds_within fp" and x: "\<bar>x\<bar> \<le> M" and M: "M \<le> 100"
  shows "\<bar>convertFtoC fp (convertCtoF fp x) - x\<bar> \<le> 25 * M / 100000 + 44 / 100000"
proof -
  define y where "y = x * (18 / 10)"
  have "\<bar>y\<bar> = \<bar>x\<bar> * (18 / 10)" by (simp add: y_def abs_mult)
  with x have y: "\<bar>y\<bar> \<le> M * (18 / 10)" by linarith
  have Y: "M * (18 / 10) \<le> 180" using M by linarith
  from convertCtoF_close [OF R x M]
  have c: "\<bar>convertCtoF fp x - (y + 32)\<bar> \<le> M / 10000 + 3 / 10000" by (simp add: y_def)
  have e: "M / 10000 + 3 / 10000 \<le> 1" using M by linarith
  from convertFtoC_close [OF R c y Y e]
  have "\<bar>convertFtoC fp (convertCtoF fp x) - y * (55555 / 100000)\<bar>
     \<le> (M / 10000 + 3 / 10000 + 1 / 10000) * (6 / 10) + M * (18 / 10) / 10000 + 2 / 10000" .
  moreover have "(M / 10000 + 3 / 10000 + 1 / 10000) * (6 / 10) + M * (18 / 10) / 10000
      + 2 / 10000 = 24 * M / 100000 + 44 / 100000" by (simp add: algebra_simps)
  ultimately have t: "\<bar>convertFtoC fp (convertCtoF fp x) - y * (55555 / 100000)\<bar>
     \<le> 24 * M / 100000 + 44 / 100000" by (simp only:)
  have yx: "y * (55555 / 100000) = x - x / 100000" by (simp add: y_def)
  have "\<bar>x / 100000\<bar> = \<bar>x\<bar> / 100000" by simp
  with x have "\<bar>x / 100000\<bar> \<le> M / 100000" by linarith
  with t show ?thesis unfolding yx by linarith
qed

text \<open>
  C9. For every arithmetic that rounds within the assumed bound, \<open>convertCtoF(20)\<close> is
  68 to within 0.0023 and \<open>convertFtoC(convertCtoF(20))\<close> is 20 to within 0.0055; for
  every \<open>x\<close> of magnitude up to 100, \<open>convertCtoF(x)\<close> is \<open>x * 1.8 + 32\<close> to within 0.0103
  and \<open>convertFtoC(convertCtoF(x))\<close> is \<open>x\<close> to within 0.026. Without rounding
  \<open>convertCtoF(20)\<close> is exactly 68 and the round trip gives 19.9998, so that no tolerance
  below 0.0002 holds at \<open>x = 20\<close>.
\<close>

theorem convert_round_trip_close:
  "(rounds_within fp \<longrightarrow>
      \<bar>convertCtoF fp 20 - 68\<bar> \<le> 23 / 10000 \<and>
      \<bar>convertFtoC fp (convertCtoF fp 20) - 20\<bar> \<le> 55 / 10000 \<and>
      (\<forall>x. \<bar>x\<bar> \<le> 100 \<longrightarrow>
         \<bar>convertCtoF fp x - (x * 1.8 + 32)\<bar> \<le> 103 / 10000 \<and>
         \<bar>convertFtoC fp (convertCtoF fp x) - x\<bar> \<le> 26 / 1000)) \<and>
   convertCtoF exact_fpu 20 = 68 \<and>
   convertFtoC exact_fpu (convertCtoF exact_fpu 20) = 199998 / 10000"
proof (intro conjI impI allI)
  assume R: "rounds_within fp"
  have t: "\<bar>20 :: real\<bar> \<le> 20" "(20 :: real) \<le> 100" by simp_all
  from convertCtoF_close [OF R t] show "\<bar>convertCtoF fp 20 - 68\<bar> \<le> 23 / 10000" by simp
  from convert_round_trip_close_gen [OF R t]
  show "\<bar>convertFtoC fp (convertCtoF fp 20) - 20\<bar> \<le> 55 / 10000" by simp
  fix x :: real assume x: "\<bar>x\<bar> \<le> 100"
  have h: "(100 :: real) \<le> 100" by simp
  from convertCtoF_close [OF R x h]
  show "\<bar>convertCtoF fp x - (x * 1.8 + 32)\<bar> \<le> 103 / 10000" by simp
  from convert_round_trip_close_gen [OF R x h]
  show "\<bar>convertFtoC fp (convertCtoF fp x) - x\<bar> \<le> 26 / 1000" by simp
next
  show "convertCtoF exact_fpu 20 = 68"
    by (simp add: convertCtoF_def exact_fpu_def fadd_def fmul_def lit_def)
  show "convertFtoC exact_fpu (convertCtoF exact_fpu 20) = 199998 / 10000"
    by (simp add: convertCtoF_def convertFtoC_def exact_fpu_def fadd_def fmul_def lit_def)
qed

theorem convert_round_trip_close_witness:
  "\<bar>convertCtoF exact_fpu 20 - 68\<bar> \<le> 23 / 10000 \<and>
   \<bar>convertFtoC exact_fpu (convertCtoF exact_fpu 20) - 20\<bar> \<le> 55 / 10000 \<and>
   \<bar>convertFtoC exact_fpu (convertCtoF exact_fpu (-40)) - (-40)\<bar> \<le> 26 / 1000"
proof -
  have "\<bar>- 40 :: real\<bar> \<le> 100" by simp
  with convert_round_trip_close [of exact_fpu] rounds_within_exact show ?thesis by blast
qed

end
